theory Spec2Isabelle
  imports Main
begin

chapter \<open>chordpro2freeshow: the ChordPro to FreeShow transformation core\<close>

text \<open>
  A shallow embedding of the transformation core of the repository
  (\<^verbatim>\<open>utils.py\<close>, \<^verbatim>\<open>models.py\<close>, \<^verbatim>\<open>config.py\<close>, \<^verbatim>\<open>parsers.py\<close>, \<^verbatim>\<open>processor.py\<close>, \<^verbatim>\<open>main.py\<close>):
  the French punctuation handler, the chord line parser, the section type resolver,
  the file parser, the section deduplicator, the FreeShow show builder, the ChordPro
  enhancer and the two steps that a file goes through.
  The definitions come first, the properties after them.
\<close>

section \<open>Python strings\<close>

text \<open>
  A Python \<^verbatim>\<open>str\<close> is a sequence of Unicode code points; \<^verbatim>\<open>len\<close>, indexing, slicing and
  the match offsets of \<^verbatim>\<open>re\<close> count code points. A character is therefore a natural number
  (its code point) and a string a list of them. \<open>u\<close> writes an ASCII literal.
\<close>

type_synonym uchar = nat
type_synonym ustr = "uchar list"

definition u :: "string \<Rightarrow> ustr" where
  "u s = map of_char s"

text \<open>
  \<^verbatim>\<open>str.isspace\<close> of one character, which is also the class \<^verbatim>\<open>\s\<close> of \<^verbatim>\<open>re\<close> on \<^verbatim>\<open>str\<close>
  patterns and what \<^verbatim>\<open>str.strip()\<close> removes: U+0009..U+000D, U+001C..U+0020, U+0085,
  U+00A0, U+1680, U+2000..U+200A, U+2028, U+2029, U+202F, U+205F, U+3000.
\<close>

definition isspace :: "uchar \<Rightarrow> bool" where
  "isspace c =
     ((9 \<le> c \<and> c \<le> 13) \<or> (28 \<le> c \<and> c \<le> 32) \<or> c = 133 \<or> c = 160 \<or> c = 5760 \<or>
      (8192 \<le> c \<and> c \<le> 8202) \<or> c = 8232 \<or> c = 8233 \<or> c = 8239 \<or> c = 8287 \<or> c = 12288)"

text \<open>\<^verbatim>\<open>s.strip()\<close>, \<^verbatim>\<open>s.startswith(p)\<close>, \<^verbatim>\<open>sub in s\<close>, \<^verbatim>\<open>sep.join(xs)\<close>, \<^verbatim>\<open>s.split('\n')\<close>.\<close>

definition strip :: "ustr \<Rightarrow> ustr" where
  "strip s = rev (dropWhile isspace (rev (dropWhile isspace s)))"

definition startswith :: "ustr \<Rightarrow> ustr \<Rightarrow> bool" where
  "startswith s p = (take (length p) s = p)"

fun str_contains :: "ustr \<Rightarrow> ustr \<Rightarrow> bool" where
  "str_contains sub [] = (sub = [])"
| "str_contains sub (c # cs) = (startswith (c # cs) sub \<or> str_contains sub cs)"

fun join :: "ustr \<Rightarrow> ustr list \<Rightarrow> ustr" where
  "join sep [] = []"
| "join sep [x] = x"
| "join sep (x # y # ys) = x @ sep @ join sep (y # ys)"

text \<open>
  \<^verbatim>\<open>s.split('\n')\<close>: the pieces between the line feeds (code point 10); the empty string
  gives one empty piece.
\<close>

fun split_lines_acc :: "ustr \<Rightarrow> ustr \<Rightarrow> ustr list" where
  "split_lines_acc cur [] = [cur]"
| "split_lines_acc cur (c # cs) =
     (if c = 10 then cur # split_lines_acc [] cs else split_lines_acc (cur @ [c]) cs)"

definition split_lines :: "ustr \<Rightarrow> ustr list" where
  "split_lines s = split_lines_acc [] s"

text \<open>\<^verbatim>\<open>str(n)\<close> of an integer, as an f-string renders it: decimal digits, a minus sign first.\<close>

fun str_nat :: "nat \<Rightarrow> ustr" where
  "str_nat n = (if n < 10 then [48 + n] else str_nat (n div 10) @ [48 + n mod 10])"

declare str_nat.simps [simp del]

definition str_int :: "int \<Rightarrow> ustr" where
  "str_int i = (if i < 0 then 45 # str_nat (nat (- i)) else str_nat (nat i))"

section \<open>The Python runtime\<close>

text \<open>
  The functions of the Python standard library that the repository calls and that are
  not part of it are parameters of the model: the MD5 hex digest of the UTF-8 encoding
  of a string (\<^verbatim>\<open>hashlib.md5(s.encode('utf-8')).hexdigest()\<close>), and the Unicode tables
  behind \<^verbatim>\<open>str.lower\<close>, \<^verbatim>\<open>str.title\<close> and the class \<^verbatim>\<open>\d\<close> beyond ASCII. On ASCII the three
  are fixed by the language and are written out.
\<close>

record pyrt =
  md5_hexdigest :: "ustr \<Rightarrow> ustr"
  unicode_lower :: "ustr \<Rightarrow> ustr"
  unicode_title :: "ustr \<Rightarrow> ustr"
  unicode_decimal :: "uchar \<Rightarrow> bool"

definition is_ascii :: "ustr \<Rightarrow> bool" where
  "is_ascii s = list_all (\<lambda>c. c < 128) s"

definition ascii_upper_char :: "uchar \<Rightarrow> bool" where
  "ascii_upper_char c = (65 \<le> c \<and> c \<le> 90)"

definition ascii_lower_char :: "uchar \<Rightarrow> bool" where
  "ascii_lower_char c = (97 \<le> c \<and> c \<le> 122)"

definition ascii_letter :: "uchar \<Rightarrow> bool" where
  "ascii_letter c = (ascii_upper_char c \<or> ascii_lower_char c)"

definition to_lower_char :: "uchar \<Rightarrow> uchar" where
  "to_lower_char c = (if ascii_upper_char c then c + 32 else c)"

definition to_upper_char :: "uchar \<Rightarrow> uchar" where
  "to_upper_char c = (if ascii_lower_char c then c - 32 else c)"

text \<open>\<^verbatim>\<open>s.lower()\<close>.\<close>

definition lower :: "pyrt \<Rightarrow> ustr \<Rightarrow> ustr" where
  "lower rt s = (if is_ascii s then map to_lower_char s else unicode_lower rt s)"

text \<open>
  \<^verbatim>\<open>s.title()\<close>: a cased character that follows an uncased one (or starts the string) is
  upper-cased, a cased character that follows a cased one is lower-cased.
\<close>

fun ascii_title :: "bool \<Rightarrow> ustr \<Rightarrow> ustr" where
  "ascii_title prev_cased [] = []"
| "ascii_title prev_cased (c # cs) =
     (if prev_cased then to_lower_char c else to_upper_char c) # ascii_title (ascii_letter c) cs"

definition title :: "pyrt \<Rightarrow> ustr \<Rightarrow> ustr" where
  "title rt s = (if is_ascii s then ascii_title False s else unicode_title rt s)"

text \<open>The class \<^verbatim>\<open>\d\<close> of \<^verbatim>\<open>re\<close> on \<^verbatim>\<open>str\<close> patterns: a Unicode decimal digit.\<close>

definition isdecimal :: "pyrt \<Rightarrow> uchar \<Rightarrow> bool" where
  "isdecimal rt c = (if c < 128 then 48 \<le> c \<and> c \<le> 57 else unicode_decimal rt c)"

section \<open>\<^verbatim>\<open>utils.py\<close>: FrenchPunctuationHandler\<close>

definition NBSP :: uchar where
  "NBSP = 160"

definition LAQUO :: uchar where
  "LAQUO = 171"

definition RAQUO :: uchar where
  "RAQUO = 187"

text \<open>The character class \<^verbatim>\<open>[;:!?\<guillemotright>]\<close> of \<^verbatim>\<open>DOUBLE_PUNCT_PATTERN\<close>.\<close>

definition is_double_punct :: "uchar \<Rightarrow> bool" where
  "is_double_punct c = (c = 59 \<or> c = 58 \<or> c = 33 \<or> c = 63 \<or> c = RAQUO)"

text \<open>
  \<^verbatim>\<open>DOUBLE_PUNCT_PATTERN.sub(NBSP + '\1', text)\<close> for the pattern \<^verbatim>\<open>\s*([;:!?\<guillemotright>])\<close>.
  \<^verbatim>\<open>re.sub\<close> scans from the left: where the (greedy) run of whitespace at the current
  position is followed by one of the marks, run and mark are replaced by NBSP and the
  mark and the scan goes on behind the mark; elsewhere the character is copied and the
  scan moves one character on. (A shorter run cannot match: it would be followed by
  whitespace.)
\<close>

function double_punct_sub :: "ustr \<Rightarrow> ustr" where
  "double_punct_sub [] = []"
| "double_punct_sub (c # cs) =
     (case dropWhile isspace (c # cs) of
        [] \<Rightarrow> c # double_punct_sub cs
      | p # rest \<Rightarrow>
          if is_double_punct p then NBSP # p # double_punct_sub rest
          else c # double_punct_sub cs)"
  by pat_completeness auto
termination
proof (relation "measure length")
  fix c cs p rest
  assume "dropWhile isspace (c # cs) = p # rest"
  then have "length (p # rest) \<le> length (c # cs)"
    by (metis length_dropWhile_le)
  then show "(rest, c # cs) \<in> measure length" by simp
qed auto

text \<open>
  \<^verbatim>\<open>OPENING_GUILLEMETS_PATTERN.sub('\1' + NBSP, text)\<close> for the pattern \<^verbatim>\<open>(\<guillemotleft>)\s*\<close>: an
  opening guillemet and the whole run of whitespace behind it become the guillemet and
  NBSP.
\<close>

function opening_guillemets_sub :: "ustr \<Rightarrow> ustr" where
  "opening_guillemets_sub [] = []"
| "opening_guillemets_sub (c # cs) =
     (if c = LAQUO then LAQUO # NBSP # opening_guillemets_sub (dropWhile isspace cs)
      else c # opening_guillemets_sub cs)"
  by pat_completeness auto
termination
  by (relation "measure length") (auto simp: less_Suc_eq_le length_dropWhile_le)

text \<open>
  \<^verbatim>\<open>fix_french_punctuation(text)\<close> on a \<^verbatim>\<open>str\<close>. (\<^verbatim>\<open>None\<close> and other values that are not
  strings are returned as they are; they are outside the type of this model.)
\<close>

definition fix_french_punctuation :: "ustr \<Rightarrow> ustr" where
  "fix_french_punctuation text =
     (if text = [] then text
      else opening_guillemets_sub (double_punct_sub text))"

text \<open>
  \<^verbatim>\<open>extract_year_from_copyright\<close>: \<^verbatim>\<open>re.search(r'(\d{4})', copyright_text)\<close>, the first
  four decimal digits in a row, or \<^verbatim>\<open>None\<close>.
\<close>

fun extract_year_from_copyright :: "pyrt \<Rightarrow> ustr \<Rightarrow> ustr option" where
  "extract_year_from_copyright rt [] = None"
| "extract_year_from_copyright rt (c # cs) =
     (if 4 \<le> length (c # cs) \<and> list_all (isdecimal rt) (take 4 (c # cs)) then Some (take 4 (c # cs))
      else extract_year_from_copyright rt cs)"

section \<open>\<^verbatim>\<open>config.py\<close>: ProcessorConfig\<close>

text \<open>
  The fields of \<^verbatim>\<open>ProcessorConfig\<close> that the transformation reads. A \<^verbatim>\<open>dict\<close> is an
  association list in insertion order (the order \<^verbatim>\<open>items()\<close> iterates in); \<^verbatim>\<open>d.get(k, v)\<close>
  and \<^verbatim>\<open>k in d\<close> go through \<open>map_of\<close>.
\<close>

record ProcessorConfig =
  cfg_fix_french_punctuation :: bool
  cfg_deduplicate_sections :: bool
  cfg_section_colors :: "(ustr \<times> ustr) list"
  cfg_global_groups :: "(ustr \<times> ustr) list"
  cfg_label_to_type_map :: "(ustr \<times> ustr) list"
  cfg_slide_style :: ustr
  cfg_font_size :: int

definition dict_get :: "(ustr \<times> 'v) list \<Rightarrow> ustr \<Rightarrow> 'v \<Rightarrow> 'v" where
  "dict_get d k dflt = (case map_of d k of None \<Rightarrow> dflt | Some v \<Rightarrow> v)"

text \<open>The defaults of the dataclass; \<open>[233]\<close> is the letter e with acute accent.\<close>

definition default_config :: ProcessorConfig where
  "default_config =
     \<lparr> cfg_fix_french_punctuation = True,
       cfg_deduplicate_sections = True,
       cfg_section_colors =
         [(u ''verse'', []), (u ''chorus'', u ''#f525d2''), (u ''bridge'', u ''#f52598''),
          (u ''pre_chorus'', u ''#25d2f5''), (u ''tag'', u ''#f5d225''), (u ''intro'', []),
          (u ''outro'', [])],
       cfg_global_groups =
         [(u ''verse'', u ''verse''), (u ''chorus'', u ''chorus''), (u ''bridge'', u ''bridge''),
          (u ''pre_chorus'', u ''pre_chorus''), (u ''tag'', u ''tag''), (u ''intro'', u ''intro''),
          (u ''outro'', u ''outro'')],
       cfg_label_to_type_map =
         [(u ''refrain'', u ''chorus''), (u ''chorus'', u ''chorus''), (u ''strophe'', u ''verse''),
          (u ''verse'', u ''verse''), (u ''pont'', u ''bridge''), (u ''bridge'', u ''bridge''),
          (u ''introduction'', u ''intro''), (u ''intro'', u ''intro''), (u ''fin'', u ''outro''),
          (u ''outro'', u ''outro'')],
       cfg_slide_style = u ''top:120px;left:50px;height:840px;width:1820px;'',
       cfg_font_size = 100 \<rparr>"

section \<open>\<^verbatim>\<open>models.py\<close>\<close>

text \<open>
  \<^verbatim>\<open>SongMetadata\<close>, a row of the metadata table. (\<^verbatim>\<open>__post_init__\<close> strips every
  field; a record here is any value of the fields afterwards.)
\<close>

record SongMetadata =
  sm_number :: ustr
  sm_title :: ustr
  sm_title2 :: ustr
  sm_original_title :: ustr
  sm_composer :: ustr
  sm_author :: ustr
  sm_key :: ustr
  sm_format :: ustr
  sm_copyright :: ustr
  sm_reference :: ustr
  sm_theme :: ustr
  sm_tune_of :: ustr
  sm_volume :: ustr
  sm_supplement :: ustr
  sm_f1 :: ustr
  sm_link :: ustr

record ChordProSection =
  sec_name :: ustr
  sec_type :: ustr
  sec_number :: "ustr option"
  sec_content :: "ustr list"
  sec_raw_content :: ustr

record ChordPosition =
  cp_id :: ustr
  cp_pos :: int
  cp_key :: ustr

record ParsedLine =
  pl_text :: ustr
  pl_chords :: "ChordPosition list"

text \<open>The test of the repository for a comment line: \<^verbatim>\<open>line.strip().startswith('{c:')\<close>.\<close>

definition is_comment_line :: "ustr \<Rightarrow> bool" where
  "is_comment_line line = startswith (strip line) (u ''{c:'')"

text \<open>\<^verbatim>\<open>ChordProSection.get_content_hash\<close>.\<close>

definition get_content_hash :: "pyrt \<Rightarrow> ChordProSection \<Rightarrow> ustr" where
  "get_content_hash rt section =
     (let content_lines = filter (\<lambda>line. \<not> is_comment_line line) (sec_content section);
          content_str = join [10] content_lines
      in md5_hexdigest rt content_str)"

text \<open>
  \<^verbatim>\<open>ParsedLine.to_freeshow_line\<close>: the one text item of the line (its value and style) and
  the chords (\<^verbatim>\<open>ChordPosition.to_dict\<close> keeps the three fields).
\<close>

record FreeShowLine =
  fl_align :: ustr
  fl_value :: ustr
  fl_style :: ustr
  fl_chords :: "ChordPosition list"

definition to_freeshow_line :: "ParsedLine \<Rightarrow> int \<Rightarrow> FreeShowLine" where
  "to_freeshow_line pl font_size =
     \<lparr> fl_align = [],
       fl_value = pl_text pl,
       fl_style = u ''font-size: '' @ str_int font_size @ u ''px;'',
       fl_chords = pl_chords pl \<rparr>"

section \<open>\<^verbatim>\<open>parsers.py\<close>: the chord line parser\<close>

text \<open>
  \<^verbatim>\<open>chord_pattern = re.compile(r'\[([^\]]+)\]')\<close>. \<open>chord_pattern_match s\<close> is the match of
  the pattern at the very start of \<open>s\<close>: an opening bracket (91), then the run of all
  characters up to the next closing bracket (93), which must not be empty, then that
  closing bracket. It returns group 1 and the text behind the match.
\<close>

definition chord_pattern_match :: "ustr \<Rightarrow> (ustr \<times> ustr) option" where
  "chord_pattern_match s =
     (case s of
        [] \<Rightarrow> None
      | c # cs \<Rightarrow>
          if c = 91 then
            (case dropWhile (\<lambda>x. x \<noteq> 93) cs of
               [] \<Rightarrow> None
             | _ # rest \<Rightarrow>
                 if takeWhile (\<lambda>x. x \<noteq> 93) cs = [] then None
                 else Some (takeWhile (\<lambda>x. x \<noteq> 93) cs, rest))
          else None)"

text \<open>
  \<^verbatim>\<open>chord_pattern.finditer(line)\<close>: the matches from left to right, none overlapping, each
  as the pair of \<^verbatim>\<open>match.start()\<close> and \<^verbatim>\<open>match.group(1)\<close>. The first argument is the offset
  of the text still to scan.
\<close>

function chord_pattern_finditer :: "nat \<Rightarrow> ustr \<Rightarrow> (nat \<times> ustr) list" where
  "chord_pattern_finditer off [] = []"
| "chord_pattern_finditer off (c # cs) =
     (case chord_pattern_match (c # cs) of
        None \<Rightarrow> chord_pattern_finditer (off + 1) cs
      | Some (grp, rest) \<Rightarrow> (off, grp) # chord_pattern_finditer (off + length grp + 2) rest)"
  by pat_completeness auto
termination
proof (relation "measure (\<lambda>(off, s). length s)")
  fix off :: nat and c cs x grp rest
  assume "chord_pattern_match (c # cs) = Some x" and "(grp, rest) = x"
  then have "dropWhile (\<lambda>x. x \<noteq> 93) cs = hd (dropWhile (\<lambda>x. x \<noteq> 93) cs) # rest"
    by (auto simp: chord_pattern_match_def split: if_splits list.splits)
  then have "length rest < length (dropWhile (\<lambda>x. x \<noteq> 93) cs)"
    by (metis length_Cons lessI)
  also have "\<dots> \<le> length cs"
    by (rule length_dropWhile_le)
  finally show "((off + length grp + 2, rest), (off, c # cs)) \<in> measure (\<lambda>(off, s). length s)"
    by simp
qed auto

text \<open>\<^verbatim>\<open>chord_pattern.sub('', line)\<close>: the line without the matches.\<close>

function chord_pattern_sub :: "ustr \<Rightarrow> ustr" where
  "chord_pattern_sub [] = []"
| "chord_pattern_sub (c # cs) =
     (case chord_pattern_match (c # cs) of
        None \<Rightarrow> c # chord_pattern_sub cs
      | Some (grp, rest) \<Rightarrow> chord_pattern_sub rest)"
  by pat_completeness auto
termination
proof (relation "measure length")
  fix c cs x grp rest
  assume "chord_pattern_match (c # cs) = Some x" and "(grp, rest) = x"
  then have "dropWhile (\<lambda>x. x \<noteq> 93) cs = hd (dropWhile (\<lambda>x. x \<noteq> 93) cs) # rest"
    by (auto simp: chord_pattern_match_def split: if_splits list.splits)
  then have "length rest < length (dropWhile (\<lambda>x. x \<noteq> 93) cs)"
    by (metis length_Cons lessI)
  also have "\<dots> \<le> length cs"
    by (rule length_dropWhile_le)
  finally show "(rest, c # cs) \<in> measure length"
    by simp
qed auto

text \<open>
  \<^verbatim>\<open>re.sub(r'^\d+\.\s*', '', clean_text)\<close>: a leading run of decimal digits, a full stop
  (46) and the run of whitespace behind it are removed. The greedy \<^verbatim>\<open>\d+\<close> takes the
  whole run of digits, and no shorter run can be followed by the full stop, which is
  not a digit. \<open>leading_number_match\<close> is the length of the match, if there is one.
\<close>

definition leading_number_match :: "pyrt \<Rightarrow> ustr \<Rightarrow> nat option" where
  "leading_number_match rt s =
     (let digits = takeWhile (isdecimal rt) s;
          after = dropWhile (isdecimal rt) s
      in if digits = [] then None
         else (case after of
                 [] \<Rightarrow> None
               | c # rest \<Rightarrow>
                   if c = 46 then Some (length digits + 1 + length (takeWhile isspace rest))
                   else None))"

definition leading_number_sub :: "pyrt \<Rightarrow> ustr \<Rightarrow> ustr" where
  "leading_number_sub rt s =
     (case leading_number_match rt s of None \<Rightarrow> s | Some n \<Rightarrow> drop n s)"

text \<open>
  \<^verbatim>\<open>parse_chord_line\<close>. For the match number \<open>i\<close> the loop subtracts from its start the
  length of \<^verbatim>\<open>f"[{prev_match.group(1)}]"\<close> for every match of \<^verbatim>\<open>chord_matches[:i]\<close>.
\<close>

definition adjusted_pos :: "(nat \<times> ustr) list \<Rightarrow> nat \<Rightarrow> int" where
  "adjusted_pos chord_matches i =
     int (fst (chord_matches ! i)) -
       sum_list (map (\<lambda>prev_match. int (length (snd prev_match) + 2)) (take i chord_matches))"

definition parse_chord_line :: "pyrt \<Rightarrow> ustr \<Rightarrow> ParsedLine" where
  "parse_chord_line rt line =
     (let chord_matches = chord_pattern_finditer 0 line;
          chords =
            map (\<lambda>i.
                  let chord = snd (chord_matches ! i);
                      original_pos = fst (chord_matches ! i)
                  in \<lparr> cp_id = take 5 (md5_hexdigest rt (chord @ str_nat original_pos)),
                       cp_pos = max 0 (adjusted_pos chord_matches i),
                       cp_key = chord \<rparr>)
              [0..<length chord_matches];
          clean_text = chord_pattern_sub line;
          clean_text = leading_number_sub rt clean_text
      in \<lparr> pl_text = clean_text, pl_chords = chords \<rparr>)"

section \<open>\<^verbatim>\<open>parsers.py\<close>: the section deduplicator\<close>

text \<open>
  \<^verbatim>\<open>deduplicate_sections\<close>: the loop over the sections with its three variables
  \<^verbatim>\<open>unique_sections\<close>, \<^verbatim>\<open>section_map\<close> (content hash to index) and \<^verbatim>\<open>index_map\<close>.
\<close>

fun deduplicate_loop ::
  "pyrt \<Rightarrow> ChordProSection list \<Rightarrow> ChordProSection list \<times> (ustr \<rightharpoonup> nat) \<times> nat list \<Rightarrow>
     ChordProSection list \<times> (ustr \<rightharpoonup> nat) \<times> nat list" where
  "deduplicate_loop rt [] st = st"
| "deduplicate_loop rt (section # sections) (unique_sections, section_map, index_map) =
     (let content_hash = get_content_hash rt section
      in case section_map content_hash of
           Some unique_index \<Rightarrow>
             deduplicate_loop rt sections (unique_sections, section_map, index_map @ [unique_index])
         | None \<Rightarrow>
             (let unique_index = length unique_sections
              in deduplicate_loop rt sections
                   (unique_sections @ [section],
                    section_map(content_hash \<mapsto> unique_index),
                    index_map @ [unique_index])))"

definition deduplicate_sections ::
  "pyrt \<Rightarrow> ChordProSection list \<Rightarrow> ChordProSection list \<times> nat list" where
  "deduplicate_sections rt sections =
     (case deduplicate_loop rt sections ([], Map.empty, []) of
        (unique_sections, section_map, index_map) \<Rightarrow> (unique_sections, index_map))"

section \<open>\<^verbatim>\<open>parsers.py\<close>: the section type resolver\<close>

text \<open>
  The pattern of \<^verbatim>\<open>_parse_section_info\<close>,
  \<^verbatim>\<open>([a-zA-Z...\s]+)\s*(\d+|[a-zA-Z])$\<close> (the dots stand for the seven accented letters
  U+00E9, U+00E8, U+00EA, U+00E0, U+00E2, U+00F9 and U+00FB), matched by \<^verbatim>\<open>re.match\<close> (at the
  start of the string) with the backtracking order of \<^verbatim>\<open>re\<close>: group 1 from its longest
  candidate down to one character, for each the run \<^verbatim>\<open>\s*\<close> from its longest down to
  nothing, for each the digits before the single letter. \<^verbatim>\<open>$\<close> holds at the end of the
  string and before a line feed that ends it.
\<close>

definition label_char :: "uchar \<Rightarrow> bool" where
  "label_char c =
     (ascii_letter c \<or> c = 233 \<or> c = 232 \<or> c = 234 \<or> c = 224 \<or> c = 226 \<or> c = 249 \<or> c = 251 \<or>
      isspace c)"

definition at_end :: "ustr \<Rightarrow> bool" where
  "at_end s = (s = [] \<or> s = [10])"

text \<open>
  \<^verbatim>\<open>(\d+|[a-zA-Z])$\<close> at the start of \<open>t\<close>. Only the whole run of digits can be followed by
  \<^verbatim>\<open>$\<close>: behind a shorter run stands a digit.
\<close>

definition label_number_match :: "pyrt \<Rightarrow> ustr \<Rightarrow> ustr option" where
  "label_number_match rt t =
     (if takeWhile (isdecimal rt) t \<noteq> [] \<and> at_end (dropWhile (isdecimal rt) t)
      then Some (takeWhile (isdecimal rt) t)
      else (case t of
              [] \<Rightarrow> None
            | c # r \<Rightarrow> if ascii_letter c \<and> at_end r then Some [c] else None))"

text \<open>\<open>first_from f n\<close> is the first result among \<open>f n\<close>, \<open>f (n - 1)\<close>, ..., \<open>f 0\<close>.\<close>

primrec first_from :: "(nat \<Rightarrow> 'a option) \<Rightarrow> nat \<Rightarrow> 'a option" where
  "first_from f 0 = f 0"
| "first_from f (Suc n) = (case f (Suc n) of Some x \<Rightarrow> Some x | None \<Rightarrow> first_from f n)"

definition label_tail_match :: "pyrt \<Rightarrow> ustr \<Rightarrow> ustr option" where
  "label_tail_match rt t =
     first_from (\<lambda>j. label_number_match rt (drop j t)) (length (takeWhile isspace t))"

primrec label_group1 :: "pyrt \<Rightarrow> ustr \<Rightarrow> nat \<Rightarrow> (ustr \<times> ustr) option" where
  "label_group1 rt s 0 = None"
| "label_group1 rt s (Suc n) =
     (case label_tail_match rt (drop (Suc n) s) of
        Some g2 \<Rightarrow> Some (take (Suc n) s, g2)
      | None \<Rightarrow> label_group1 rt s n)"

definition label_pattern_match :: "pyrt \<Rightarrow> ustr \<Rightarrow> (ustr \<times> ustr) option" where
  "label_pattern_match rt s = label_group1 rt s (length (takeWhile label_char s))"

record SectionInfo =
  si_name :: ustr
  si_type :: ustr
  si_number :: "ustr option"

text \<open>
  The text that is looked up in the table: \<^verbatim>\<open>type_part\<close>, and the loop over
  \<^verbatim>\<open>label_to_type_map.items()\<close>, which stops at the first key that occurs in it.
\<close>

definition type_part :: "pyrt \<Rightarrow> ustr \<Rightarrow> ustr" where
  "type_part rt label =
     (case label_pattern_match rt (lower rt label) of
        None \<Rightarrow> lower rt label
      | Some (g1, g2) \<Rightarrow> strip g1)"

fun lookup_type :: "(ustr \<times> ustr) list \<Rightarrow> ustr \<Rightarrow> ustr \<Rightarrow> ustr" where
  "lookup_type [] tp section_type = section_type"
| "lookup_type ((key, val) # items) tp section_type =
     (if str_contains key tp then val else lookup_type items tp section_type)"

text \<open>
  \<^verbatim>\<open>_parse_section_info\<close>. \<^verbatim>\<open>if label:\<close> holds for a label that is neither \<^verbatim>\<open>None\<close> nor the
  empty string.
\<close>

definition parse_section_info ::
  "pyrt \<Rightarrow> ProcessorConfig \<Rightarrow> ustr \<Rightarrow> ustr option \<Rightarrow> SectionInfo" where
  "parse_section_info rt cfg block_type label =
     (case label of
        None \<Rightarrow> \<lparr> si_name = title rt block_type, si_type = block_type, si_number = None \<rparr>
      | Some l \<Rightarrow>
          if l = [] then
            \<lparr> si_name = title rt block_type, si_type = block_type, si_number = None \<rparr>
          else
            \<lparr> si_name = l,
              si_type = lookup_type (cfg_label_to_type_map cfg) (type_part rt l) block_type,
              si_number = map_option snd (label_pattern_match rt (lower rt l)) \<rparr>)"

text \<open>\<^verbatim>\<open>_create_section\<close>.\<close>

definition create_section :: "SectionInfo \<Rightarrow> ustr list \<Rightarrow> ChordProSection" where
  "create_section section_info content =
     \<lparr> sec_name = si_name section_info,
       sec_type = si_type section_info,
       sec_number = si_number section_info,
       sec_content = content,
       sec_raw_content = join [10] content \<rparr>"

section \<open>\<^verbatim>\<open>parsers.py\<close>: the file parser\<close>

text \<open>
  The pattern of the directive branch, \<^verbatim>\<open>\{([^:]+)(?::(.*))?\}\<close>, matched by \<^verbatim>\<open>re.match\<close>.
  Group 1 is first the whole run of characters other than the colon (58) behind the
  opening brace (123); if a colon follows, group 2 is the longest text without a line
  feed behind it that a closing brace (125) follows. Otherwise group 1 is cut back to
  the last closing brace in the run that leaves it at least one character, and there
  is no group 2.
\<close>

definition last_index :: "uchar \<Rightarrow> ustr \<Rightarrow> nat option" where
  "last_index c xs =
     (case dropWhile (\<lambda>x. x \<noteq> c) (rev xs) of
        [] \<Rightarrow> None
      | _ # front \<Rightarrow> Some (length front))"

definition directive_match :: "ustr \<Rightarrow> (ustr \<times> ustr option) option" where
  "directive_match s =
     (case s of
        [] \<Rightarrow> None
      | c # t \<Rightarrow>
          if c \<noteq> 123 then None
          else
            (let run = takeWhile (\<lambda>x. x \<noteq> 58) t;
                 with_value =
                   (case dropWhile (\<lambda>x. x \<noteq> 58) t of
                      [] \<Rightarrow> None
                    | _ # v \<Rightarrow>
                        (case last_index 125 (takeWhile (\<lambda>x. x \<noteq> 10) v) of
                           None \<Rightarrow> None
                         | Some k \<Rightarrow> Some (run, Some (take k v))))
             in if run = [] then None
                else (case with_value of
                        Some m \<Rightarrow> Some m
                      | None \<Rightarrow>
                          (case last_index 125 (tl run) of
                             None \<Rightarrow> None
                           | Some k \<Rightarrow> Some (take (Suc k) run, None)))))"

text \<open>The variables of the loop of \<^verbatim>\<open>parse_file\<close>.\<close>

record parse_state =
  ps_metadata :: "ustr \<rightharpoonup> ustr"
  ps_sections :: "ChordProSection list"
  ps_current_section_label :: "ustr option"
  ps_current_section_content :: "ustr list"
  ps_current_section_info :: "SectionInfo option"
  ps_in_section :: bool

definition initial_parse_state :: parse_state where
  "initial_parse_state =
     \<lparr> ps_metadata = Map.empty, ps_sections = [], ps_current_section_label = None,
       ps_current_section_content = [], ps_current_section_info = None,
       ps_in_section = False \<rparr>"

text \<open>
  The lines that take the second and the third branch of the loop: a start-of-block
  and an end-of-block directive. (The first branch takes the comment lines.)
\<close>

definition is_start_line :: "ustr \<Rightarrow> bool" where
  "is_start_line line = (\<not> is_comment_line line \<and> startswith (strip line) (u ''{start_of_''))"

definition is_end_line :: "ustr \<Rightarrow> bool" where
  "is_end_line line =
     (\<not> is_comment_line line \<and> \<not> is_start_line line \<and> startswith (strip line) (u ''{end_of_''))"

text \<open>
  One turn of the loop. \<^verbatim>\<open>stripped_line[3:-1]\<close> and \<^verbatim>\<open>stripped_line[10:-1]\<close> drop the
  prefix and the last character. \<^verbatim>\<open>current_section_info\<close> is a dictionary of three keys
  when it is not \<^verbatim>\<open>None\<close>, so it is true exactly then.
\<close>

definition parse_line :: "pyrt \<Rightarrow> ProcessorConfig \<Rightarrow> parse_state \<Rightarrow> ustr \<Rightarrow> parse_state" where
  "parse_line rt cfg st line =
     (let stripped_line = strip line in
      if startswith stripped_line (u ''{c:'') then
        (let st1 = st\<lparr> ps_current_section_label := Some (strip (butlast (drop 3 stripped_line))) \<rparr>
         in if ps_in_section st1
            then st1\<lparr> ps_current_section_content := ps_current_section_content st1 @ [line] \<rparr>
            else st1)
      else if startswith stripped_line (u ''{start_of_'') then
        (let st1 =
               (case ps_current_section_info st of
                  Some info \<Rightarrow>
                    if ps_in_section st
                    then st\<lparr> ps_sections :=
                              ps_sections st @ [create_section info (ps_current_section_content st)] \<rparr>
                    else st
                | None \<Rightarrow> st);
             block_type = strip (butlast (drop 10 stripped_line))
         in st1\<lparr> ps_in_section := True,
                 ps_current_section_info :=
                   Some (parse_section_info rt cfg block_type (ps_current_section_label st1)),
                 ps_current_section_label := None,
                 ps_current_section_content := [] \<rparr>)
      else if startswith stripped_line (u ''{end_of_'') then
        (case ps_current_section_info st of
           Some info \<Rightarrow>
             if ps_in_section st
             then st\<lparr> ps_sections :=
                       ps_sections st @ [create_section info (ps_current_section_content st)],
                     ps_in_section := False,
                     ps_current_section_info := None,
                     ps_current_section_content := [] \<rparr>
             else st
         | None \<Rightarrow> st)
      else if startswith stripped_line [123] then
        (let st1 =
               (case directive_match stripped_line of
                  None \<Rightarrow> st
                | Some (g1, g2) \<Rightarrow>
                    st\<lparr> ps_metadata :=
                          (ps_metadata st)
                            (strip g1 \<mapsto>
                               (case g2 of
                                  None \<Rightarrow> []
                                | Some v \<Rightarrow> if v = [] then [] else strip v)) \<rparr>)
         in if ps_in_section st1
            then st1\<lparr> ps_current_section_content := ps_current_section_content st1 @ [line] \<rparr>
            else st1)
      else if ps_in_section st
        then st\<lparr> ps_current_section_content := ps_current_section_content st @ [line] \<rparr>
      else st)"

text \<open>
  \<^verbatim>\<open>parse_file\<close>, from the text that \<^verbatim>\<open>f.read()\<close> returned: the state after the loop over
  the lines, and the pair of \<^verbatim>\<open>metadata\<close> and \<^verbatim>\<open>sections\<close> that is returned.
\<close>

definition parse_lines :: "pyrt \<Rightarrow> ProcessorConfig \<Rightarrow> ustr list \<Rightarrow> parse_state" where
  "parse_lines rt cfg lines = foldl (parse_line rt cfg) initial_parse_state lines"

definition parse_file ::
  "pyrt \<Rightarrow> ProcessorConfig \<Rightarrow> ustr \<Rightarrow> (ustr \<rightharpoonup> ustr) \<times> ChordProSection list" where
  "parse_file rt cfg content =
     (let final = parse_lines rt cfg (split_lines content)
      in (ps_metadata final, ps_sections final))"

section \<open>\<^verbatim>\<open>processor.py\<close>: the FreeShow show builder\<close>

text \<open>
  The slide dictionary of \<^verbatim>\<open>_create_freeshow_slide\<close>: its group, its colour, the global
  group (a key that is only there for a type of \<^verbatim>\<open>global_groups\<close>), and the lines and the
  style of its one text item. The other entries are constants.
\<close>

record FreeShowSlide =
  slide_group :: ustr
  slide_color :: ustr
  slide_globalGroup :: "ustr option"
  slide_lines :: "FreeShowLine list"
  slide_style :: ustr

definition slide_line :: "pyrt \<Rightarrow> ProcessorConfig \<Rightarrow> ustr \<Rightarrow> FreeShowLine" where
  "slide_line rt cfg line =
     (let parsed_line = parse_chord_line rt line;
          parsed_line =
            (if cfg_fix_french_punctuation cfg
             then parsed_line\<lparr> pl_text := fix_french_punctuation (pl_text parsed_line) \<rparr>
             else parsed_line)
      in to_freeshow_line parsed_line (cfg_font_size cfg))"

definition create_freeshow_slide ::
  "pyrt \<Rightarrow> ProcessorConfig \<Rightarrow> ChordProSection \<Rightarrow> FreeShowSlide" where
  "create_freeshow_slide rt cfg section =
     \<lparr> slide_group = sec_name section,
       slide_color = dict_get (cfg_section_colors cfg) (sec_type section) [],
       slide_globalGroup = map_of (cfg_global_groups cfg) (sec_type section),
       slide_lines =
         map (slide_line rt cfg)
           (filter (\<lambda>line. \<not> is_comment_line line \<and> strip line \<noteq> []) (sec_content section)),
       slide_style = cfg_slide_style cfg \<rparr>"

text \<open>
  The list \<^verbatim>\<open>freeshow_data\<close>: the show identifier and the show. \<^verbatim>\<open>layouts\<close> has the one
  layout \<^verbatim>\<open>layout_id\<close>, whose slide references are \<open>layout_slides\<close>.
\<close>

record FreeShowData =
  show_id :: ustr
  show_name :: ustr
  show_category :: ustr
  active_layout :: ustr
  created :: int
  modified :: int
  quick_access_number :: ustr
  meta_number :: ustr
  meta_title :: ustr
  meta_artist :: ustr
  meta_author :: ustr
  meta_composer :: ustr
  meta_copyright :: ustr
  meta_year :: ustr
  meta_key :: ustr
  show_slides :: "ustr \<rightharpoonup> FreeShowSlide"
  layout_id :: ustr
  layout_slides :: "ustr list"

datatype error = IndexError

text \<open>
  \<^verbatim>\<open>hashlib.md5(f"{section.type}{i}{section.raw_content}".encode('utf-8')).hexdigest()[:11]\<close>
\<close>

definition slide_id_of :: "pyrt \<Rightarrow> nat \<Rightarrow> ChordProSection \<Rightarrow> ustr" where
  "slide_id_of rt i section =
     take 11 (md5_hexdigest rt (sec_type section @ str_nat i @ sec_raw_content section))"

text \<open>
  The loop that fills \<^verbatim>\<open>slides\<close> and \<^verbatim>\<open>unique_slide_ids\<close>; \<open>i\<close> is the counter of
  \<^verbatim>\<open>enumerate\<close>. A slide identifier that comes again overwrites the entry of the
  dictionary.
\<close>

fun slides_loop ::
  "pyrt \<Rightarrow> ProcessorConfig \<Rightarrow> nat \<Rightarrow> ChordProSection list \<Rightarrow>
     (ustr \<rightharpoonup> FreeShowSlide) \<times> ustr list \<Rightarrow> (ustr \<rightharpoonup> FreeShowSlide) \<times> ustr list" where
  "slides_loop rt cfg i [] acc = acc"
| "slides_loop rt cfg i (section # unique_sections) (slides, unique_slide_ids) =
     (let slide_id = slide_id_of rt i section
      in slides_loop rt cfg (i + 1) unique_sections
           (slides(slide_id \<mapsto> create_freeshow_slide rt cfg section),
            unique_slide_ids @ [slide_id]))"

text \<open>
  \<^verbatim>\<open>[{"id": unique_slide_ids[i]} for i in index_map]\<close>: an index outside the list raises
  \<^verbatim>\<open>IndexError\<close>.
\<close>

fun layout_of :: "ustr list \<Rightarrow> nat list \<Rightarrow> error + ustr list" where
  "layout_of unique_slide_ids [] = Inr []"
| "layout_of unique_slide_ids (i # index_map) =
     (if i < length unique_slide_ids then
        (case layout_of unique_slide_ids index_map of
           Inl e \<Rightarrow> Inl e
         | Inr ids \<Rightarrow> Inr (unique_slide_ids ! i # ids))
      else Inl IndexError)"

text \<open>
  The choice of \<^verbatim>\<open>generate_freeshow_file\<close> between the deduplicator and the identity:
  \<^verbatim>\<open>unique_sections, index_map = sections, list(range(len(sections)))\<close> when the
  configuration switches deduplication off.
\<close>

definition unique_and_index ::
  "pyrt \<Rightarrow> ProcessorConfig \<Rightarrow> ChordProSection list \<Rightarrow> ChordProSection list \<times> nat list" where
  "unique_and_index rt cfg sections =
     (if cfg_deduplicate_sections cfg then deduplicate_sections rt sections
      else (sections, [0..<length sections]))"

text \<open>
  The part of \<^verbatim>\<open>generate_freeshow_file\<close> behind the call of \<^verbatim>\<open>parse_file\<close>: \<open>filename\<close> is
  \<^verbatim>\<open>Path(filepath).stem\<close>, \<open>current_time\<close> what \<^verbatim>\<open>int(time.time() * 1000)\<close> gave.
  \<open>metadata_get\<close> is \<^verbatim>\<open>file_metadata.get(k, default)\<close>, \<open>punctuated\<close> the punctuation handler
  under its switch of the configuration. \<^verbatim>\<open>validate_freeshow_data\<close> only logs a warning.
\<close>

definition metadata_get :: "(ustr \<rightharpoonup> ustr) \<Rightarrow> ustr \<Rightarrow> ustr \<Rightarrow> ustr" where
  "metadata_get file_metadata k dflt = (case file_metadata k of None \<Rightarrow> dflt | Some v \<Rightarrow> v)"

definition punctuated :: "ProcessorConfig \<Rightarrow> ustr \<Rightarrow> ustr" where
  "punctuated cfg t = (if cfg_fix_french_punctuation cfg then fix_french_punctuation t else t)"

definition build_freeshow_data ::
  "pyrt \<Rightarrow> ProcessorConfig \<Rightarrow> int \<Rightarrow> ustr \<Rightarrow> (ustr \<rightharpoonup> ustr) \<Rightarrow> ChordProSection list \<Rightarrow>
     error + FreeShowData" where
  "build_freeshow_data rt cfg current_time filename file_metadata sections =
     (let song_number = metadata_get file_metadata (u ''number'') [];
          title_text = punctuated cfg (metadata_get file_metadata (u ''title'') filename);
          (unique_sections, index_map) = unique_and_index rt cfg sections;
          (slides, unique_slide_ids) = slides_loop rt cfg 0 unique_sections (Map.empty, []);
          author = punctuated cfg (metadata_get file_metadata (u ''lyricist'') []);
          composer = punctuated cfg (metadata_get file_metadata (u ''composer'') []);
          copyright_text = punctuated cfg (metadata_get file_metadata (u ''copyright'') []);
          category =
            (if startswith filename (u ''jem'')
             then (if str_contains (u ''jemk'') (lower rt filename) then u ''JEM Kids'' else u ''JEM'')
             else u ''song'')
      in case layout_of unique_slide_ids index_map of
           Inl e \<Rightarrow> Inl e
         | Inr layout \<Rightarrow>
             Inr \<lparr> show_id = take 11 (md5_hexdigest rt filename),
                   show_name = title_text,
                   show_category = category,
                   active_layout = take 11 (md5_hexdigest rt (u ''layout'' @ filename)),
                   created = current_time,
                   modified = current_time,
                   quick_access_number = song_number,
                   meta_number = song_number,
                   meta_title = title_text,
                   meta_artist = author,
                   meta_author = author,
                   meta_composer = composer,
                   meta_copyright = copyright_text,
                   meta_year = metadata_get file_metadata (u ''year'') [],
                   meta_key = metadata_get file_metadata (u ''key'') [],
                   show_slides = slides,
                   layout_id = take 11 (md5_hexdigest rt (u ''layout'' @ filename)),
                   layout_slides = layout \<rparr>)"

text \<open>
  \<^verbatim>\<open>generate_freeshow_file\<close>, from the text of the file to the structure that is written
  as JSON.
\<close>

definition generate_freeshow_file ::
  "pyrt \<Rightarrow> ProcessorConfig \<Rightarrow> int \<Rightarrow> ustr \<Rightarrow> ustr \<Rightarrow> error + FreeShowData" where
  "generate_freeshow_file rt cfg current_time filename content =
     (case parse_file rt cfg content of
        (file_metadata, sections) \<Rightarrow>
          build_freeshow_data rt cfg current_time filename file_metadata sections)"

section \<open>\<^verbatim>\<open>processor.py\<close>: the ChordPro enhancer\<close>

text \<open>The header line \<^verbatim>\<open>f"{{key: {value}}}"\<close>: a brace, the key, a colon, a space, the value, a brace.\<close>

definition directive_line :: "ustr \<Rightarrow> ustr \<Rightarrow> ustr" where
  "directive_line k v = 123 # k @ [58, 32] @ v @ [125]"

text \<open>
  The header of \<^verbatim>\<open>enhance_chordpro\<close>: the lines for the record of the metadata table when
  there is one (an object of a dataclass is true), then the key of the document.
\<close>

definition enhance_header ::
  "pyrt \<Rightarrow> ProcessorConfig \<Rightarrow> SongMetadata option \<Rightarrow> (ustr \<rightharpoonup> ustr) \<Rightarrow> ustr list" where
  "enhance_header rt cfg csv_metadata file_metadata =
     (case csv_metadata of
        None \<Rightarrow> []
      | Some m \<Rightarrow>
          [directive_line (u ''number'') (sm_number m),
           directive_line (u ''title'') (punctuated cfg (sm_title m))] @
          (if sm_author m \<noteq> [] then [directive_line (u ''lyricist'') (punctuated cfg (sm_author m))]
           else []) @
          (if sm_composer m \<noteq> [] then [directive_line (u ''composer'') (punctuated cfg (sm_composer m))]
           else []) @
          (if sm_copyright m \<noteq> [] then
             directive_line (u ''copyright'') (punctuated cfg (sm_copyright m)) #
             (case extract_year_from_copyright rt (sm_copyright m) of
                None \<Rightarrow> []
              | Some year \<Rightarrow> [directive_line (u ''year'') year])
           else [])) @
     (case file_metadata (u ''key'') of
        None \<Rightarrow> []
      | Some k \<Rightarrow> [directive_line (u ''key'') k])"

text \<open>The lines of one section: its start, its lines (punctuation is fixed but in directives), its end, an empty line.\<close>

definition enhance_section :: "ProcessorConfig \<Rightarrow> ChordProSection \<Rightarrow> ustr list" where
  "enhance_section cfg section =
     [u ''{start_of_'' @ sec_type section @ u ''}''] @
     map (\<lambda>line. if cfg_fix_french_punctuation cfg \<and> \<not> startswith (strip line) [123]
                  then fix_french_punctuation line else line)
       (sec_content section) @
     [u ''{end_of_'' @ sec_type section @ u ''}'', []]"

text \<open>
  \<^verbatim>\<open>enhance_chordpro\<close>, from the stem of the path and the text of the file to the text that
  is written: the table is read at the stem in lower case, and the output lines are the
  header, an empty line and the sections, joined by line feeds.
\<close>

definition enhance_chordpro ::
  "pyrt \<Rightarrow> ProcessorConfig \<Rightarrow> (ustr \<rightharpoonup> SongMetadata) \<Rightarrow> ustr \<Rightarrow> ustr \<Rightarrow> ustr" where
  "enhance_chordpro rt cfg metadata filename content =
     (case parse_file rt cfg content of
        (file_metadata, sections) \<Rightarrow>
          (let csv_metadata = metadata (lower rt filename);
               output_lines =
                 enhance_header rt cfg csv_metadata file_metadata @ [[]] @
                 concat (map (enhance_section cfg) sections)
           in join [10] output_lines))"

section \<open>\<^verbatim>\<open>main.py\<close>: one file through both steps\<close>

text \<open>
  A file opened in text mode is read with \<^verbatim>\<open>'\r\n'\<close> and \<^verbatim>\<open>'\r'\<close> turned into \<^verbatim>\<open>'\n'\<close>:
  \<open>read_text\<close> is that translation, from the decoded text of the file to what
  \<^verbatim>\<open>f.read()\<close> returns. (Where the line separator is \<^verbatim>\<open>'\n'\<close>, \<^verbatim>\<open>write_text\<close> writes the
  text as it is.)
\<close>

fun read_text :: "ustr \<Rightarrow> ustr" where
  "read_text [] = []"
| "read_text [c] = [if c = 13 then 10 else c]"
| "read_text (c # d # ds) =
     (if c = 13 \<and> d = 10 then 10 # read_text ds
      else if c = 13 then 10 # read_text (d # ds)
      else c # read_text (d # ds))"

text \<open>
  \<^verbatim>\<open>process_single_file\<close>: \<^verbatim>\<open>enhance_chordpro\<close> on the file, then \<^verbatim>\<open>generate_freeshow_file\<close>
  on the file that it wrote, whose stem is the stem of the input and \<^verbatim>\<open>-enhanced\<close>.
\<close>

definition process_single_file ::
  "pyrt \<Rightarrow> ProcessorConfig \<Rightarrow> (ustr \<rightharpoonup> SongMetadata) \<Rightarrow> int \<Rightarrow> ustr \<Rightarrow> ustr \<Rightarrow> error + FreeShowData" where
  "process_single_file rt cfg metadata current_time filename raw =
     (let enhanced = enhance_chordpro rt cfg metadata filename (read_text raw)
      in generate_freeshow_file rt cfg current_time (filename @ u ''-enhanced'') (read_text enhanced))"

section \<open>Notions that the properties use\<close>

text \<open>
  The invariant of the loop of \<^verbatim>\<open>deduplicate_sections\<close>, after the sections \<open>seen\<close>:
  the index map has one entry for each of them; \<^verbatim>\<open>section_map\<close> sends the hash of every
  unique section to its index and nothing else to anything; every entry of the index
  map points to a unique section with the hash of its section; every unique section is
  the first section seen with its hash; every index of a unique section is in the
  index map.
\<close>

definition dedup_inv ::
  "pyrt \<Rightarrow> ChordProSection list \<Rightarrow> ChordProSection list \<times> (ustr \<rightharpoonup> nat) \<times> nat list \<Rightarrow> bool" where
  "dedup_inv rt seen st =
     (case st of (U, M, I) \<Rightarrow>
        length I = length seen \<and>
        (\<forall>k<length U. M (get_content_hash rt (U ! k)) = Some k) \<and>
        (\<forall>h k. M h = Some k \<longrightarrow> k < length U \<and> get_content_hash rt (U ! k) = h) \<and>
        (\<forall>i<length seen. I ! i < length U \<and>
            get_content_hash rt (U ! (I ! i)) = get_content_hash rt (seen ! i)) \<and>
        (\<forall>k<length U. find (\<lambda>s. get_content_hash rt s = get_content_hash rt (U ! k)) seen = Some (U ! k)) \<and>
        (\<forall>k<length U. k \<in> set I))"

text \<open>The identifiers that the slide loop gives the unique sections, counted from \<open>i\<close>.\<close>

fun slide_ids :: "pyrt \<Rightarrow> nat \<Rightarrow> ChordProSection list \<Rightarrow> ustr list" where
  "slide_ids rt i [] = []"
| "slide_ids rt i (section # sections) = slide_id_of rt i section # slide_ids rt (i + 1) sections"

text \<open>
  For the chord line parser: the matches of a text that begins \<open>d\<close> characters into the
  line; what is known of the match number \<open>k\<close> of a line (its adjusted position is not
  negative and lies in the text without chords, the text without chords behind the
  match begins there, the match is the chord in its brackets at its offset, and the
  next match has no smaller adjusted position); the length of the numeric marker that
  is removed (0 when there is none); and the text without chords behind a match.
\<close>

definition shift :: "nat \<Rightarrow> (nat \<times> ustr) list \<Rightarrow> (nat \<times> ustr) list" where
  "shift d ms = map (\<lambda>m. (fst m + d, snd m)) ms"

definition match_ok :: "ustr \<Rightarrow> (nat \<times> ustr) list \<Rightarrow> nat \<Rightarrow> bool" where
  "match_ok s ms k =
     (let st = fst (ms ! k); g = snd (ms ! k) in
        0 \<le> adjusted_pos ms k \<and>
        nat (adjusted_pos ms k) \<le> length (chord_pattern_sub s) \<and>
        drop (nat (adjusted_pos ms k)) (chord_pattern_sub s) = chord_pattern_sub (drop (st + length g + 2) s) \<and>
        take (length g + 2) (drop st s) = 91 # g @ [93] \<and>
        (Suc k < length ms \<longrightarrow> adjusted_pos ms k \<le> adjusted_pos ms (Suc k)))"

definition removed_marker_length :: "pyrt \<Rightarrow> ustr \<Rightarrow> nat" where
  "removed_marker_length rt line =
     (case leading_number_match rt (chord_pattern_sub line) of None \<Rightarrow> 0 | Some n \<Rightarrow> n)"

definition text_behind :: "ustr \<Rightarrow> nat \<times> ustr \<Rightarrow> ustr" where
  "text_behind line m = chord_pattern_sub (drop (fst m + length (snd m) + 2) line)"

text \<open>
  The section whose slide stands for the section at position \<open>p\<close>: with deduplication
  the first section of the document with the same content hash, without it the section
  itself.
\<close>

definition first_with_hash :: "pyrt \<Rightarrow> ChordProSection list \<Rightarrow> ChordProSection \<Rightarrow> ChordProSection" where
  "first_with_hash rt sections section =
     (case find (\<lambda>s. get_content_hash rt s = get_content_hash rt section) sections of
        None \<Rightarrow> section
      | Some r \<Rightarrow> r)"

definition representative :: "pyrt \<Rightarrow> ProcessorConfig \<Rightarrow> ChordProSection list \<Rightarrow> nat \<Rightarrow> ChordProSection" where
  "representative rt cfg sections p =
     (if cfg_deduplicate_sections cfg then first_with_hash rt sections (sections ! p)
      else sections ! p)"

text \<open>The layout read back through the slides: the slide of each entry, in order.\<close>

definition replay_layout :: "FreeShowData \<Rightarrow> FreeShowSlide option list" where
  "replay_layout d = map (show_slides d) (layout_slides d)"

text \<open>
  For the header of the enhanced file: its keys; its lines as pairs of key and value;
  a text without line feed (10) and carriage return (13); the fields of a record that
  the header shows; and a directive map all of whose values are stripped and made of
  the characters of a set.
\<close>

definition header_keys :: "ustr list" where
  "header_keys =
     [u ''number'', u ''title'', u ''lyricist'', u ''composer'', u ''copyright'', u ''year'', u ''key'']"

definition header_entries ::
  "pyrt \<Rightarrow> ProcessorConfig \<Rightarrow> SongMetadata option \<Rightarrow> (ustr \<rightharpoonup> ustr) \<Rightarrow> (ustr \<times> ustr) list" where
  "header_entries rt cfg csv_metadata file_metadata =
     (case csv_metadata of
        None \<Rightarrow> []
      | Some m \<Rightarrow>
          [(u ''number'', sm_number m), (u ''title'', punctuated cfg (sm_title m))] @
          (if sm_author m \<noteq> [] then [(u ''lyricist'', punctuated cfg (sm_author m))] else []) @
          (if sm_composer m \<noteq> [] then [(u ''composer'', punctuated cfg (sm_composer m))] else []) @
          (if sm_copyright m \<noteq> [] then
             (u ''copyright'', punctuated cfg (sm_copyright m)) #
             (case extract_year_from_copyright rt (sm_copyright m) of
                None \<Rightarrow> []
              | Some year \<Rightarrow> [(u ''year'', year)])
           else [])) @
     (case file_metadata (u ''key'') of
        None \<Rightarrow> []
      | Some k \<Rightarrow> [(u ''key'', k)])"

definition single_line :: "ustr \<Rightarrow> bool" where
  "single_line s = (10 \<notin> set s \<and> 13 \<notin> set s)"

definition header_fields :: "SongMetadata \<Rightarrow> ustr list" where
  "header_fields m = [sm_number m, sm_title m, sm_author m, sm_composer m, sm_copyright m]"

definition clean_values :: "uchar set \<Rightarrow> (ustr \<rightharpoonup> ustr) \<Rightarrow> bool" where
  "clean_values A m = (\<forall>k v. m k = Some v \<longrightarrow> set v \<subseteq> A \<and> strip v = v)"

section \<open>Inputs used as examples\<close>

text \<open>
  Two sections that differ in name, type and number and, in their content, by one
  comment line.
\<close>

definition verse_1 :: ChordProSection where
  "verse_1 = \<lparr> sec_name = u ''Verse 1'', sec_type = u ''verse'', sec_number = Some (u ''1''),
       sec_content = [u ''Line 1'', u ''Line 2''], sec_raw_content = u ''Line 1'' @ [10] @ u ''Line 2'' \<rparr>"

definition chorus_1 :: ChordProSection where
  "chorus_1 = \<lparr> sec_name = u ''Refrain'', sec_type = u ''chorus'', sec_number = None,
       sec_content = [u ''Line 1'', u ''{c: X}'', u ''Line 2''],
       sec_raw_content = u ''Line 1'' @ [10] @ u ''{c: X}'' @ [10] @ u ''Line 2'' \<rparr>"

text \<open>
  A document with a title, a verse and a chorus of the same content, and the two
  sections that \<^verbatim>\<open>parse_file\<close> makes of it.
\<close>

definition two_sections_doc :: ustr where
  "two_sections_doc = join [10]
     [u ''{title: Song}'', u ''{start_of_verse}'', u ''La'', u ''{end_of_verse}'',
      u ''{start_of_chorus}'', u ''La'', u ''{end_of_chorus}'']"

definition la_verse :: ChordProSection where
  "la_verse = \<lparr> sec_name = u ''Verse'', sec_type = u ''verse'', sec_number = None,
       sec_content = [u ''La''], sec_raw_content = u ''La'' \<rparr>"

definition la_chorus :: ChordProSection where
  "la_chorus = \<lparr> sec_name = u ''Chorus'', sec_type = u ''chorus'', sec_number = None,
       sec_content = [u ''La''], sec_raw_content = u ''La'' \<rparr>"

text \<open>A document with directives and text but no section.\<close>

definition metadata_only_doc :: ustr where
  "metadata_only_doc = join [10] [u ''{title: Song}'', u ''{key: C}'', u ''Stray line'']"

text \<open>
  Four lines: the line of the test of the repository, a numbered line with a chord
  behind its text, a numbered line with a chord behind the marker, and one with a chord
  between the marker and a space.
\<close>

definition hello_line :: ustr where
  "hello_line = u ''[C]Hello [G]world [Am]test''"

definition numbered_line :: ustr where
  "numbered_line = u ''1. Hello [G]world''"

definition numbered_chord_line :: ustr where
  "numbered_chord_line = u ''1. [C]Hello''"

definition numbered_gap_line :: ustr where
  "numbered_gap_line = u ''1. [C] Hello''"

text \<open>
  A document that ends in an open chorus behind a closed verse, a document in which a
  verse is closed by the start of the chorus only, and the verse of both.
\<close>

definition open_chorus_doc :: ustr where
  "open_chorus_doc = join [10]
     [u ''{start_of_verse}'', u ''A'', u ''{end_of_verse}'', u ''{start_of_chorus}'', u ''B'']"

definition unclosed_verse_doc :: ustr where
  "unclosed_verse_doc = join [10]
     [u ''{start_of_verse}'', u ''A'', u ''{start_of_chorus}'', u ''B'']"

definition verse_a :: ChordProSection where
  "verse_a = \<lparr> sec_name = u ''Verse'', sec_type = u ''verse'', sec_number = None,
       sec_content = [u ''A''], sec_raw_content = u ''A'' \<rparr>"

text \<open>A table of one record, with a title that ends in a question mark.\<close>

definition quoi_record :: SongMetadata where
  "quoi_record =
     \<lparr> sm_number = u ''jem001'', sm_title = u ''Quoi ?'', sm_title2 = [], sm_original_title = [],
       sm_composer = u ''Bach'', sm_author = [], sm_key = [], sm_format = [],
       sm_copyright = u ''(c) 1999-2001 X'', sm_reference = [], sm_theme = [], sm_tune_of = [],
       sm_volume = [], sm_supplement = [], sm_f1 = [], sm_link = [] \<rparr>"

definition one_song_table :: "ustr \<rightharpoonup> SongMetadata" where
  "one_song_table = [u ''jem001'' \<mapsto> quoi_record]"

chapter \<open>Properties\<close>

text \<open>ASCII literals are equal only when they are the same.\<close>

lemma u_eq_iff: "u a = u b \<longleftrightarrow> a = b"
  by (simp add: u_def inj_map_eq_map[OF inj_of_char])


section \<open>The punctuation handler is idempotent\<close>

declare double_punct_sub.simps(2) [simp del]
declare opening_guillemets_sub.simps(2) [simp del]

lemma punct_not_space: "is_double_punct c \<Longrightarrow> \<not> isspace c"
  by (auto simp: is_double_punct_def isspace_def RAQUO_def)

lemma laquo_facts: "\<not> isspace LAQUO" "\<not> is_double_punct LAQUO" "LAQUO \<noteq> NBSP"
  by (simp_all add: is_double_punct_def isspace_def LAQUO_def RAQUO_def NBSP_def)

lemma nbsp_facts: "isspace NBSP" "\<not> is_double_punct NBSP"
  by (simp_all add: is_double_punct_def isspace_def RAQUO_def NBSP_def)

text \<open>The three ways a step of the first substitution can go.\<close>

lemma dps_punct:
  "is_double_punct c \<Longrightarrow> double_punct_sub (c # cs) = NBSP # c # double_punct_sub cs"
  by (simp add: double_punct_sub.simps(2) punct_not_space)

lemma dps_other:
  "\<not> isspace c \<Longrightarrow> \<not> is_double_punct c \<Longrightarrow> double_punct_sub (c # cs) = c # double_punct_sub cs"
  by (simp add: double_punct_sub.simps(2))

lemma dps_space:
  "isspace c \<Longrightarrow> double_punct_sub (c # cs) =
     (case dropWhile isspace cs of
        [] \<Rightarrow> c # double_punct_sub cs
      | p # rest \<Rightarrow>
          if is_double_punct p then NBSP # p # double_punct_sub rest
          else c # double_punct_sub cs)"
  by (simp add: double_punct_sub.simps(2))

lemma ogs_laquo:
  "opening_guillemets_sub (LAQUO # cs) = LAQUO # NBSP # opening_guillemets_sub (dropWhile isspace cs)"
  by (simp add: opening_guillemets_sub.simps(2))

lemma ogs_other: "c \<noteq> LAQUO \<Longrightarrow> opening_guillemets_sub (c # cs) = c # opening_guillemets_sub cs"
  by (simp add: opening_guillemets_sub.simps(2))

lemma ogs_head: "\<exists>r. opening_guillemets_sub (c # cs) = c # r"
  by (cases "c = LAQUO") (simp_all add: ogs_laquo ogs_other)

text \<open>Neither substitution changes the leading whitespace or the character behind it.\<close>

lemma dw_ogs_nil:
  "dropWhile isspace s = [] \<Longrightarrow> dropWhile isspace (opening_guillemets_sub s) = []"
proof (induction s)
  case Nil then show ?case by simp
next
  case (Cons c cs)
  then have sp: "isspace c" and n: "dropWhile isspace cs = []" by (auto split: if_splits)
  from sp laquo_facts(1) have "c \<noteq> LAQUO" by auto
  with Cons.IH[OF n] sp show ?case by (simp add: ogs_other)
qed

lemma dw_ogs_cons:
  "dropWhile isspace s = q # r \<Longrightarrow> \<exists>r'. dropWhile isspace (opening_guillemets_sub s) = q # r'"
proof (induction s)
  case Nil then show ?case by simp
next
  case (Cons c cs)
  show ?case
  proof (cases "isspace c")
    case True
    with laquo_facts(1) have "c \<noteq> LAQUO" by auto
    with Cons True show ?thesis by (auto simp: ogs_other)
  next
    case False
    with Cons.prems have "q = c" by simp
    with False ogs_head[of c cs] show ?thesis by auto
  qed
qed

lemma dw_dps_nil:
  "dropWhile isspace s = [] \<Longrightarrow> dropWhile isspace (double_punct_sub s) = []"
proof (induction s)
  case Nil then show ?case by simp
next
  case (Cons c cs)
  then have sp: "isspace c" and n: "dropWhile isspace cs = []" by (auto split: if_splits)
  from Cons.IH[OF n] sp show ?case by (simp add: dps_space n)
qed

lemma dw_dps_cons:
  "dropWhile isspace s = q # r \<Longrightarrow> \<not> is_double_punct q \<Longrightarrow>
     \<exists>r'. dropWhile isspace (double_punct_sub s) = q # r'"
proof (induction s)
  case Nil then show ?case by simp
next
  case (Cons c cs)
  show ?case
  proof (cases "isspace c")
    case True
    with Cons show ?thesis by (auto simp: dps_space)
  next
    case False
    with Cons.prems have "q = c" by simp
    with False Cons.prems show ?thesis by (simp add: dps_other)
  qed
qed

lemma dps_idem: "double_punct_sub (double_punct_sub x) = double_punct_sub x"
proof (induction x rule: double_punct_sub.induct)
  case 1 then show ?case by simp
next
  case (2 c cs)
  show ?case
  proof (cases "dropWhile isspace (c # cs)")
    case Nil
    then have sp: "isspace c" and n: "dropWhile isspace cs = []" by (auto split: if_splits)
    from 2(1)[OF Nil] have ih: "double_punct_sub (double_punct_sub cs) = double_punct_sub cs" .
    from sp have e: "double_punct_sub (c # cs) = c # double_punct_sub cs"
      by (simp add: dps_space n)
    from sp ih show ?thesis unfolding e by (simp add: dps_space dw_dps_nil[OF n])
  next
    case (Cons p rest)
    show ?thesis
    proof (cases "is_double_punct p")
      case True
      from 2(2)[OF Cons True]
      have ih: "double_punct_sub (double_punct_sub rest) = double_punct_sub rest" .
      from Cons True have e: "double_punct_sub (c # cs) = NBSP # p # double_punct_sub rest"
        by (simp add: double_punct_sub.simps(2))
      show ?thesis unfolding e using True ih nbsp_facts punct_not_space[OF True]
        by (simp add: dps_space)
    next
      case False
      from 2(3)[OF Cons False]
      have ih: "double_punct_sub (double_punct_sub cs) = double_punct_sub cs" .
      from Cons False have e: "double_punct_sub (c # cs) = c # double_punct_sub cs"
        by (simp add: double_punct_sub.simps(2))
      show ?thesis
      proof (cases "isspace c")
        case True
        with Cons have "dropWhile isspace cs = p # rest" by simp
        from dw_dps_cons[OF this False]
        obtain r' where "dropWhile isspace (double_punct_sub cs) = p # r'" by blast
        with True False ih show ?thesis unfolding e by (simp add: dps_space)
      next
        case nsp: False
        with Cons have "p = c" by simp
        with nsp False ih show ?thesis unfolding e by (simp add: dps_other)
      qed
    qed
  qed
qed

lemma dw_ogs_fixed:
  "dropWhile isspace t = t \<Longrightarrow>
     dropWhile isspace (opening_guillemets_sub t) = opening_guillemets_sub t"
proof (cases t)
  case Nil then show ?thesis by simp
next
  case (Cons q r)
  assume "dropWhile isspace t = t"
  with Cons have "\<not> isspace q"
    using length_dropWhile_le[of isspace r]
    by (auto split: if_splits dest: arg_cong[where f=length])
  with ogs_head[of q r] Cons show ?thesis by auto
qed

lemma ogs_idem:
  "opening_guillemets_sub (opening_guillemets_sub z) = opening_guillemets_sub z"
proof (induction z rule: opening_guillemets_sub.induct)
  case 1 then show ?case by simp
next
  case (2 c cs)
  show ?case
  proof (cases "c = LAQUO")
    case True
    have "dropWhile isspace (dropWhile isspace cs) = dropWhile isspace cs"
      by (simp add: dropWhile_idem)
    from dw_ogs_fixed[OF this] 2(1)[OF True] True nbsp_facts show ?thesis
      by (simp add: ogs_laquo)
  next
    case False
    with 2(2) show ?thesis by (simp add: ogs_other)
  qed
qed

text \<open>
  A text that the first substitution leaves alone stays so behind leading whitespace
  that no mark follows.
\<close>

lemma dps_fixed_after_spaces:
  "double_punct_sub s = s \<Longrightarrow> dropWhile isspace s = q # r \<Longrightarrow> \<not> is_double_punct q \<Longrightarrow>
     double_punct_sub (q # r) = q # r"
proof (induction s)
  case Nil then show ?case by simp
next
  case (Cons d ds)
  show ?case
  proof (cases "isspace d")
    case True
    with Cons.prems have dw: "dropWhile isspace ds = q # r" by simp
    with Cons.prems True have "double_punct_sub ds = ds" by (simp add: dps_space)
    from Cons.IH[OF this dw Cons.prems(3)] show ?thesis .
  next
    case False
    with Cons.prems show ?thesis by simp
  qed
qed

text \<open>
  The second substitution keeps a text in the form the first one produces: the only
  whitespace it writes stands behind a guillemet, and in front of a mark it writes the
  NBSP that is there already.
\<close>

lemma dps_ogs_fixed:
  "double_punct_sub z = z \<Longrightarrow>
     double_punct_sub (opening_guillemets_sub z) = opening_guillemets_sub z"
proof (induction z rule: length_induct)
  case (1 z)
  note IH = 1(1)[rule_format] and fx = 1(2)
  show ?case
  proof (cases z)
    case Nil then show ?thesis by simp
  next
    case (Cons c cs)
    consider (laquo) "c = LAQUO" | (punct) "is_double_punct c" | (space) "isspace c"
      | (other) "c \<noteq> LAQUO" "\<not> is_double_punct c" "\<not> isspace c" by blast
    then show ?thesis
    proof cases
      case laquo
      from fx Cons laquo laquo_facts have fcs: "double_punct_sub cs = cs"
        by (simp add: dps_other)
      have g: "opening_guillemets_sub z =
                 LAQUO # NBSP # opening_guillemets_sub (dropWhile isspace cs)"
        using Cons laquo by (simp add: ogs_laquo)
      have "double_punct_sub (NBSP # opening_guillemets_sub (dropWhile isspace cs))
              = NBSP # opening_guillemets_sub (dropWhile isspace cs)"
      proof (cases "dropWhile isspace cs")
        case Nil
        show ?thesis using nbsp_facts by (simp add: dps_space Nil)
      next
        case dw: (Cons q r)
        have nq: "\<not> isspace q"
          using dw by (metis hd_dropWhile list.sel(1) list.distinct(1))
        show ?thesis
        proof (cases "is_double_punct q")
          case True
          have "cs = NBSP # q # r \<and> double_punct_sub r = r"
          proof (cases cs)
            case Nil with dw show ?thesis by simp
          next
            case c2: (Cons d ds)
            show ?thesis
            proof (cases "isspace d")
              case sp: True
              with dw c2 have "dropWhile isspace ds = q # r" by simp
              with fcs c2 sp True punct_not_space[OF True] show ?thesis
                by (auto simp add: dps_space)
            next
              case False
              with dw c2 have "d = q" "ds = r" by simp_all
              with fcs c2 True nbsp_facts show ?thesis by (auto simp add: dps_punct)
            qed
          qed
          then have r: "double_punct_sub r = r" ..
          have "length r < length z"
            using Cons dw length_dropWhile_le[of isspace cs] by simp
          from IH[OF this r]
          have ih: "double_punct_sub (opening_guillemets_sub r) = opening_guillemets_sub r" .
          have "q \<noteq> LAQUO" using True laquo_facts by auto
          then show ?thesis using True ih nbsp_facts nq
            by (simp add: dw ogs_other dps_space)
        next
          case False
          have fq: "double_punct_sub (q # r) = q # r"
            using dps_fixed_after_spaces[OF fcs dw False] .
          have "length (q # r) < length z"
            using Cons dw length_dropWhile_le[of isspace cs] by simp
          from IH[OF this fq]
          have ih: "double_punct_sub (opening_guillemets_sub (q # r)) =
                      opening_guillemets_sub (q # r)" .
          obtain r' where r': "opening_guillemets_sub (q # r) = q # r'"
            using ogs_head by blast
          show ?thesis using ih nbsp_facts nq False unfolding dw r'
            by (simp add: dps_space)
        qed
      qed
      then show ?thesis unfolding g using laquo_facts by (simp add: dps_other)
    next
      case punct
      with fx Cons nbsp_facts have False by (auto simp: dps_punct)
      then show ?thesis ..
    next
      case other
      from fx Cons other have fcs: "double_punct_sub cs = cs" by (simp add: dps_other)
      have "length cs < length z" using Cons by simp
      from IH[OF this fcs] Cons other show ?thesis by (simp add: ogs_other dps_other)
    next
      case space
      then have nl: "c \<noteq> LAQUO" using laquo_facts by auto
      show ?thesis
      proof (cases "dropWhile isspace cs")
        case Nil
        with fx Cons space have fcs: "double_punct_sub cs = cs" by (simp add: dps_space)
        have "length cs < length z" using Cons by simp
        from IH[OF this fcs] Cons space nl show ?thesis
          by (simp add: ogs_other dps_space dw_ogs_nil[OF Nil])
      next
        case dw: (Cons q r)
        from dw_ogs_cons[OF dw]
        obtain r' where r': "dropWhile isspace (opening_guillemets_sub cs) = q # r'" by blast
        show ?thesis
        proof (cases "is_double_punct q")
          case True
          from fx Cons space True have "c = NBSP" "cs = q # double_punct_sub r"
            by (simp_all add: dps_space dw)
          with dw punct_not_space[OF True]
          have cs: "cs = q # r" and fr: "double_punct_sub r = r" by simp_all
          have "length r < length z" using Cons cs by simp
          from IH[OF this fr]
          have ih: "double_punct_sub (opening_guillemets_sub r) = opening_guillemets_sub r" .
          have "q \<noteq> LAQUO" using True laquo_facts by auto
          then show ?thesis
            using Cons cs \<open>c = NBSP\<close> nl True ih nbsp_facts punct_not_space[OF True]
            by (simp add: ogs_other dps_space)
        next
          case False
          with fx Cons space have fcs: "double_punct_sub cs = cs"
            by (simp add: dps_space dw)
          have "length cs < length z" using Cons by simp
          from IH[OF this fcs] Cons space nl False show ?thesis
            by (simp add: ogs_other dps_space r')
        qed
      qed
    qed
  qed
qed

text \<open>
  C3. The punctuation handler is idempotent: for every string \<open>x\<close>,
  \<^verbatim>\<open>fix_french_punctuation(fix_french_punctuation(x)) == fix_french_punctuation(x)\<close>, and the
  empty string is returned unchanged.
\<close>

theorem fix_french_punctuation_idempotent:
  "fix_french_punctuation (fix_french_punctuation x) = fix_french_punctuation x \<and>
   fix_french_punctuation [] = []"
  by (simp add: fix_french_punctuation_def dps_ogs_fixed dps_idem ogs_idem)

section \<open>The chord line parser\<close>

lemma chord_pattern_match_SomeD:
  assumes a: "chord_pattern_match s = Some (g, rest)"
  shows "s = 91 # g @ 93 # rest \<and> g \<noteq> [] \<and> 93 \<notin> set g"
proof (cases s)
  case Nil
  with a show ?thesis by (simp add: chord_pattern_match_def)
next
  case (Cons c cs)
  show ?thesis
  proof (cases "dropWhile (\<lambda>x. x \<noteq> 93) cs")
    case Nil
    from a Cons show ?thesis by (simp add: chord_pattern_match_def Nil split: if_splits)
  next
    case d: (Cons x rest')
    from a Cons have c: "c = 91" and g: "g = takeWhile (\<lambda>x. x \<noteq> 93) cs"
      and ne: "g \<noteq> []" and r: "rest' = rest"
      by (auto simp add: chord_pattern_match_def d split: if_splits)
    have "x = 93" using hd_dropWhile[of "\<lambda>x. x \<noteq> 93" cs] by (simp add: d)
    then have "cs = g @ 93 # rest"
      using takeWhile_dropWhile_id[of "\<lambda>x. x \<noteq> 93" cs] by (simp add: d g r)
    moreover from g have "93 \<notin> set g" by (auto dest: set_takeWhileD)
    ultimately show ?thesis using Cons c ne by simp
  qed
qed

lemma finditer_shift:
  "chord_pattern_finditer (off + d) s = shift d (chord_pattern_finditer off s)"
proof (induction off s arbitrary: d rule: chord_pattern_finditer.induct)
  case (1 off) then show ?case by (simp add: shift_def)
next
  case (2 off c cs)
  show ?case
  proof (cases "chord_pattern_match (c # cs)")
    case None
    from 2(1)[OF None, of d] None show ?thesis by (simp add: shift_def)
  next
    case (Some x)
    obtain g rest where x: "x = (g, rest)" by (cases x) auto
    from 2(2)[OF Some x[symmetric], of d] Some x show ?thesis
      by (simp add: shift_def add.commute add.left_commute)
  qed
qed

lemma finditer_Cons_None:
  "chord_pattern_match (c # cs) = None \<Longrightarrow>
     chord_pattern_finditer 0 (c # cs) = shift 1 (chord_pattern_finditer 0 cs)"
  using finditer_shift[of 0 1 cs] by simp

lemma finditer_Cons_Some:
  "chord_pattern_match (c # cs) = Some (g, rest) \<Longrightarrow>
     chord_pattern_finditer 0 (c # cs) = (0, g) # shift (length g + 2) (chord_pattern_finditer 0 rest)"
  using finditer_shift[of 0 "length g + 2" rest] by simp

lemma length_shift [simp]: "length (shift d ms) = length ms"
  by (simp add: shift_def)

lemma adjusted_pos_shift:
  "k < length ms \<Longrightarrow> adjusted_pos (shift d ms) k = adjusted_pos ms k + int d"
  by (simp add: adjusted_pos_def shift_def take_map comp_def)

lemma adjusted_pos_0: "adjusted_pos (m # ms) 0 = int (fst m)"
  by (simp add: adjusted_pos_def)

lemma adjusted_pos_Suc:
  "adjusted_pos (m # ms) (Suc k) = adjusted_pos ms k - int (length (snd m) + 2)"
  by (simp add: adjusted_pos_def)

lemma finditer_match_ok:
  "k < length (chord_pattern_finditer 0 s) \<Longrightarrow> match_ok s (chord_pattern_finditer 0 s) k"
proof (induction s arbitrary: k rule: chord_pattern_sub.induct)
  case 1 then show ?case by simp
next
  case (2 c cs)
  show ?case
  proof (cases "chord_pattern_match (c # cs)")
    case None
    let ?ms = "chord_pattern_finditer 0 cs"
    have fi: "chord_pattern_finditer 0 (c # cs) = shift 1 ?ms" by (rule finditer_Cons_None[OF None])
    from "2.prems" fi have k: "k < length ?ms" by simp
    from 2(1)[OF None k] have ok: "match_ok cs ?ms k" .
    have sub: "chord_pattern_sub (c # cs) = c # chord_pattern_sub cs" using None by simp
    have nth: "shift 1 ?ms ! k = (fst (?ms ! k) + 1, snd (?ms ! k))" using k by (simp add: shift_def)
    from ok have nn: "0 \<le> adjusted_pos ?ms k" by (simp add: match_ok_def Let_def)
    then have nat1: "nat (adjusted_pos ?ms k + 1) = Suc (nat (adjusted_pos ?ms k))" by simp
    show ?thesis
      using ok k unfolding fi match_ok_def Let_def nth sub
      by (simp add: adjusted_pos_shift nat1)
  next
    case (Some x)
    obtain g rest where x: "x = (g, rest)" by (cases x) auto
    let ?ms = "chord_pattern_finditer 0 rest"
    let ?L = "length g + 2"
    from Some x have m: "chord_pattern_match (c # cs) = Some (g, rest)" by simp
    have fi: "chord_pattern_finditer 0 (c # cs) = (0, g) # shift ?L ?ms" by (rule finditer_Cons_Some[OF m])
    from chord_pattern_match_SomeD[OF m] have c: "c = 91" and cs: "cs = g @ 93 # rest" by simp_all
    have s: "c # cs = 91 # g @ 93 # rest" by (simp add: c cs)
    have sub: "chord_pattern_sub (c # cs) = chord_pattern_sub rest" using m by simp
    have dr: "drop (length g + 2 + n) (c # cs) = drop n rest" for n
      unfolding s by simp
    show ?thesis
    proof (cases k)
      case 0
      have "0 < length ?ms \<longrightarrow> (0::int) \<le> adjusted_pos ((0, g) # shift ?L ?ms) (Suc 0)"
      proof
        assume l: "0 < length ?ms"
        have "adjusted_pos ((0, g) # shift ?L ?ms) (Suc 0) = adjusted_pos ?ms 0"
          using l by (simp add: adjusted_pos_Suc adjusted_pos_shift)
        also have "\<dots> = int (fst (?ms ! 0))" by (simp add: adjusted_pos_def)
        finally show "(0::int) \<le> adjusted_pos ((0, g) # shift ?L ?ms) (Suc 0)" by simp
      qed
      then show ?thesis
        using 0 dr[of 0] unfolding fi match_ok_def Let_def sub
        by (simp add: adjusted_pos_0 c cs)
    next
      case (Suc k')
      from "2.prems" fi Suc have k': "k' < length ?ms" by simp
      from 2(2)[OF Some x[symmetric] k'] have ok: "match_ok rest ?ms k'" .
      let ?full = "(0, g) # shift ?L ?ms"
      let ?st = "fst (?ms ! k')" and ?g = "snd (?ms ! k')"
      from ok have o1: "0 \<le> adjusted_pos ?ms k'"
        and o2: "nat (adjusted_pos ?ms k') \<le> length (chord_pattern_sub rest)"
        and o3: "drop (nat (adjusted_pos ?ms k')) (chord_pattern_sub rest) =
                   chord_pattern_sub (drop (?st + length ?g + 2) rest)"
        and o4: "take (length ?g + 2) (drop ?st rest) = 91 # ?g @ [93]"
        and o5: "Suc k' < length ?ms \<longrightarrow> adjusted_pos ?ms k' \<le> adjusted_pos ?ms (Suc k')"
        by (simp_all add: match_ok_def Let_def)
      have nth: "?full ! Suc k' = (?st + ?L, ?g)"
        using k' by (simp add: shift_def)
      have adj: "adjusted_pos ?full (Suc k') = adjusted_pos ?ms k'"
        using k' by (simp add: adjusted_pos_Suc adjusted_pos_shift)
      have adj2: "Suc k' < length ?ms \<Longrightarrow> adjusted_pos ?full (Suc (Suc k')) = adjusted_pos ?ms (Suc k')"
        by (simp add: adjusted_pos_Suc adjusted_pos_shift)
      have dr2: "drop (?st + ?L) (c # cs) = drop ?st rest"
        using dr[of ?st] by (simp add: add.commute)
      have dr3: "drop (?st + ?L + length ?g + 2) (c # cs) = drop (?st + length ?g + 2) rest"
        using dr[of "?st + length ?g + 2"] by (simp add: add.commute add.left_commute)
      have g1: "0 \<le> adjusted_pos ?full (Suc k')" by (simp only: adj o1)
      have g2: "nat (adjusted_pos ?full (Suc k')) \<le> length (chord_pattern_sub (c # cs))"
        by (simp only: adj sub o2)
      have g3: "drop (nat (adjusted_pos ?full (Suc k'))) (chord_pattern_sub (c # cs)) =
                  chord_pattern_sub (drop (fst (?full ! Suc k') + length (snd (?full ! Suc k')) + 2) (c # cs))"
        by (simp only: adj sub nth fst_conv snd_conv dr3 o3)
      have g4: "take (length (snd (?full ! Suc k')) + 2) (drop (fst (?full ! Suc k')) (c # cs)) =
                  91 # snd (?full ! Suc k') @ [93]"
        by (simp only: nth fst_conv snd_conv dr2 o4)
      have g5: "Suc (Suc k') < length ?full \<longrightarrow>
                  adjusted_pos ?full (Suc k') \<le> adjusted_pos ?full (Suc (Suc k'))"
      proof
        assume "Suc (Suc k') < length ?full"
        then have l: "Suc k' < length ?ms" by simp
        from o5 l adj2[OF l] show "adjusted_pos ?full (Suc k') \<le> adjusted_pos ?full (Suc (Suc k'))"
          by (simp only: adj)
      qed
      show ?thesis
        unfolding Suc fi match_ok_def Let_def using g1 g2 g3 g4 g5 by blast
    qed
  qed
qed


lemma parse_chord_line_chords:
  "pl_chords (parse_chord_line rt line) =
     map (\<lambda>i. \<lparr> cp_id = take 5 (md5_hexdigest rt (snd (chord_pattern_finditer 0 line ! i) @
                                     str_nat (fst (chord_pattern_finditer 0 line ! i)))),
                cp_pos = max 0 (adjusted_pos (chord_pattern_finditer 0 line) i),
                cp_key = snd (chord_pattern_finditer 0 line ! i) \<rparr>)
       [0..<length (chord_pattern_finditer 0 line)]"
  by (simp add: parse_chord_line_def Let_def)

lemma parse_chord_line_text:
  "pl_text (parse_chord_line rt line) = leading_number_sub rt (chord_pattern_sub line)"
  by (simp add: parse_chord_line_def Let_def)

lemma parse_chord_line_pos:
  "k < length (chord_pattern_finditer 0 line) \<Longrightarrow>
     cp_pos (pl_chords (parse_chord_line rt line) ! k) = adjusted_pos (chord_pattern_finditer 0 line) k"
  using finditer_match_ok[of k line]
  by (simp add: parse_chord_line_chords match_ok_def Let_def)

lemma leading_number_sub_drop:
  "leading_number_sub rt (chord_pattern_sub line) = drop (removed_marker_length rt line) (chord_pattern_sub line)"
  by (simp add: leading_number_sub_def removed_marker_length_def split: option.splits)

lemmas chord_eval =
  chord_pattern_match_def leading_number_sub_def leading_number_match_def isdecimal_def isspace_def
  adjusted_pos_def Let_def

lemma hello_matches:
  "chord_pattern_finditer 0 hello_line = [(0, u ''C''), (9, u ''G''), (18, u ''Am'')]"
  by (simp add: hello_line_def u_def chord_eval)

lemma hello_parsed:
  "map cp_key (pl_chords (parse_chord_line rt hello_line)) = [u ''C'', u ''G'', u ''Am'']"
  "map cp_pos (pl_chords (parse_chord_line rt hello_line)) = [0, 6, 12]"
  "pl_text (parse_chord_line rt hello_line) = u ''Hello world test''"
  by (simp_all add: parse_chord_line_chords parse_chord_line_text hello_matches upt_rec adjusted_pos_def)
     (simp_all add: hello_line_def u_def chord_eval)

lemma numbered_matches: "chord_pattern_finditer 0 numbered_line = [(9, u ''G'')]"
  by (simp add: numbered_line_def u_def chord_eval)

lemma numbered_parsed:
  "map cp_pos (pl_chords (parse_chord_line rt numbered_line)) = [9]"
  "pl_text (parse_chord_line rt numbered_line) = u ''Hello world''"
  "removed_marker_length rt numbered_line = 3"
  "text_behind numbered_line (9, u ''G'') = u ''world''"
  by (simp_all add: parse_chord_line_chords parse_chord_line_text numbered_matches upt_rec adjusted_pos_def
        removed_marker_length_def text_behind_def)
     (simp_all add: numbered_line_def u_def chord_eval)

text \<open>
  C2, as the code has it. \<^verbatim>\<open>parse_chord_line\<close> returns one chord for each match of the
  chord pattern, with the symbols of the matches as keys, and every match is the
  symbol in its brackets at its offset in the line; the positions do not decrease; and
  the text is the line without the bracketed chords, from which a leading numeric
  marker (digits, a full stop and the whitespace behind it) is removed as well.
\<close>

theorem parse_chord_line_marks:
  "length (pl_chords (parse_chord_line rt line)) = length (chord_pattern_finditer 0 line) \<and>
   map cp_key (pl_chords (parse_chord_line rt line)) = map snd (chord_pattern_finditer 0 line) \<and>
   (\<forall>k<length (chord_pattern_finditer 0 line).
      take (length (snd (chord_pattern_finditer 0 line ! k)) + 2)
        (drop (fst (chord_pattern_finditer 0 line ! k)) line) =
      91 # snd (chord_pattern_finditer 0 line ! k) @ [93]) \<and>
   sorted (map cp_pos (pl_chords (parse_chord_line rt line))) \<and>
   pl_text (parse_chord_line rt line) = leading_number_sub rt (chord_pattern_sub line)"
proof (intro conjI allI impI)
  let ?ms = "chord_pattern_finditer 0 line"
  show "length (pl_chords (parse_chord_line rt line)) = length ?ms"
    by (simp add: parse_chord_line_chords)
  show "map cp_key (pl_chords (parse_chord_line rt line)) = map snd ?ms"
    by (rule nth_equalityI) (simp_all add: parse_chord_line_chords)
  show "pl_text (parse_chord_line rt line) = leading_number_sub rt (chord_pattern_sub line)"
    by (rule parse_chord_line_text)
  show "sorted (map cp_pos (pl_chords (parse_chord_line rt line)))"
    unfolding sorted_iff_nth_Suc
  proof (intro allI impI)
    fix i
    assume "Suc i < length (map cp_pos (pl_chords (parse_chord_line rt line)))"
    then have i: "Suc i < length ?ms" by (simp add: parse_chord_line_chords)
    then have i': "i < length ?ms" by simp
    from finditer_match_ok[OF i'] i have "adjusted_pos ?ms i \<le> adjusted_pos ?ms (Suc i)"
      by (simp add: match_ok_def Let_def)
    with i i' parse_chord_line_pos[OF i, of rt] parse_chord_line_pos[OF i', of rt]
    show "map cp_pos (pl_chords (parse_chord_line rt line)) ! i
            \<le> map cp_pos (pl_chords (parse_chord_line rt line)) ! Suc i"
      by (simp add: parse_chord_line_chords)
  qed
next
  fix k
  assume "k < length (chord_pattern_finditer 0 line)"
  from finditer_match_ok[OF this]
  show "take (length (snd (chord_pattern_finditer 0 line ! k)) + 2)
        (drop (fst (chord_pattern_finditer 0 line ! k)) line) =
      91 # snd (chord_pattern_finditer 0 line ! k) @ [93]"
    by (simp add: match_ok_def Let_def)
qed

theorem parse_chord_line_marks_witness:
  "\<forall>rt. length (pl_chords (parse_chord_line rt hello_line)) = 3 \<and>
        map cp_key (pl_chords (parse_chord_line rt hello_line)) = [u ''C'', u ''G'', u ''Am''] \<and>
        take 3 (drop 9 hello_line) = u ''[G]'' \<and>
        map cp_pos (pl_chords (parse_chord_line rt hello_line)) = [0, 6, 12] \<and>
        sorted [0 :: int, 6, 12] \<and>
        pl_text (parse_chord_line rt hello_line) = u ''Hello world test''"
proof
  fix rt
  from parse_chord_line_marks[of rt hello_line]
  have len: "length (pl_chords (parse_chord_line rt hello_line)) = length (chord_pattern_finditer 0 hello_line)"
    and all: "\<forall>k<length (chord_pattern_finditer 0 hello_line).
      take (length (snd (chord_pattern_finditer 0 hello_line ! k)) + 2)
        (drop (fst (chord_pattern_finditer 0 hello_line ! k)) hello_line) =
      91 # snd (chord_pattern_finditer 0 hello_line ! k) @ [93]"
    and srt: "sorted (map cp_pos (pl_chords (parse_chord_line rt hello_line)))"
    by blast+
  from all[rule_format, of 1] have "take 3 (drop 9 hello_line) = u ''[G]''"
    by (simp add: hello_matches) (simp add: u_def numeral_3_eq_3)
  with len srt show "length (pl_chords (parse_chord_line rt hello_line)) = 3 \<and>
        map cp_key (pl_chords (parse_chord_line rt hello_line)) = [u ''C'', u ''G'', u ''Am''] \<and>
        take 3 (drop 9 hello_line) = u ''[G]'' \<and>
        map cp_pos (pl_chords (parse_chord_line rt hello_line)) = [0, 6, 12] \<and>
        sorted [0 :: int, 6, 12] \<and>
        pl_text (parse_chord_line rt hello_line) = u ''Hello world test''"
    by (simp add: hello_matches hello_parsed)
qed

text \<open>
  The claim C2 as it was stated (the text is the line with the bracketed chords
  removed) fails on a line with a numeric marker, which is removed too.
\<close>

theorem parse_chord_line_text_counterexample:
  "\<forall>rt. pl_text (parse_chord_line rt numbered_chord_line) = u ''Hello'' \<and>
        chord_pattern_sub numbered_chord_line = u ''1. Hello'' \<and>
        pl_text (parse_chord_line rt numbered_chord_line) \<noteq> chord_pattern_sub numbered_chord_line"
  by (simp add: parse_chord_line_text numbered_chord_line_def u_def chord_eval)

lemma parse_chord_line_length:
  "length (pl_chords (parse_chord_line rt line)) = length (chord_pattern_finditer 0 line)"
  by (simp add: parse_chord_line_chords)

text \<open>
  C9, as the code has it. The position of every chord is computed before the marker
  is removed: it is the offset, in the text without chords that still has its marker,
  at which the text behind the chord begins. The returned text is that text without
  the marker. So for every chord that stands behind the removed marker (its position
  is at least the length of the marker) the position exceeds the position of the chord
  in the returned text by exactly the length of the removed marker.
\<close>

theorem pos_before_marker_removal:
  "k < length (chord_pattern_finditer 0 line) \<Longrightarrow>
   0 \<le> cp_pos (pl_chords (parse_chord_line rt line) ! k) \<and>
   nat (cp_pos (pl_chords (parse_chord_line rt line) ! k)) \<le> length (chord_pattern_sub line) \<and>
   drop (nat (cp_pos (pl_chords (parse_chord_line rt line) ! k))) (chord_pattern_sub line) =
     text_behind line (chord_pattern_finditer 0 line ! k) \<and>
   pl_text (parse_chord_line rt line) =
     drop (removed_marker_length rt line) (chord_pattern_sub line) \<and>
   (int (removed_marker_length rt line) \<le> cp_pos (pl_chords (parse_chord_line rt line) ! k) \<longrightarrow>
    (\<exists>a. a \<le> length (pl_text (parse_chord_line rt line)) \<and>
         drop a (pl_text (parse_chord_line rt line)) =
           text_behind line (chord_pattern_finditer 0 line ! k) \<and>
         cp_pos (pl_chords (parse_chord_line rt line) ! k) =
           int a + int (removed_marker_length rt line)))"
proof -
  let ?ms = "chord_pattern_finditer 0 line" and ?n = "removed_marker_length rt line"
  let ?r = "parse_chord_line rt line"
  assume k: "k < length ?ms"
  from finditer_match_ok[OF k]
  have nn: "0 \<le> adjusted_pos ?ms k"
    and bd: "nat (adjusted_pos ?ms k) \<le> length (chord_pattern_sub line)"
    and dr: "drop (nat (adjusted_pos ?ms k)) (chord_pattern_sub line) = text_behind line (?ms ! k)"
    by (simp_all add: match_ok_def Let_def text_behind_def)
  have pos: "cp_pos (pl_chords ?r ! k) = adjusted_pos ?ms k" by (rule parse_chord_line_pos[OF k])
  have tx: "pl_text ?r = drop ?n (chord_pattern_sub line)"
    by (simp add: parse_chord_line_text leading_number_sub_drop)
  have behind: "\<exists>a. a \<le> length (pl_text ?r) \<and> drop a (pl_text ?r) = text_behind line (?ms ! k) \<and>
                   cp_pos (pl_chords ?r ! k) = int a + int ?n"
    if le: "int ?n \<le> cp_pos (pl_chords ?r ! k)"
  proof -
    let ?a = "nat (adjusted_pos ?ms k) - ?n"
    from le pos nn have n: "?n \<le> nat (adjusted_pos ?ms k)" by simp
    have 1: "?a \<le> length (pl_text ?r)" using bd n by (simp add: tx)
    have 2: "drop ?a (pl_text ?r) = text_behind line (?ms ! k)" using n dr by (simp add: tx)
    have 3: "cp_pos (pl_chords ?r ! k) = int ?a + int ?n" using n nn by (simp add: pos)
    from 1 2 3 show ?thesis by blast
  qed
  from nn bd dr tx behind show ?thesis by (simp add: pos)
qed

theorem pos_before_marker_removal_witness:
  "\<forall>rt. 0 < length (chord_pattern_finditer 0 numbered_line) \<and>
        removed_marker_length rt numbered_line = 3 \<and>
        cp_pos (pl_chords (parse_chord_line rt numbered_line) ! 0) = 9 \<and>
        pl_text (parse_chord_line rt numbered_line) = u ''Hello world'' \<and>
        (\<exists>a. a \<le> length (u ''Hello world'') \<and> drop a (u ''Hello world'') = u ''world'' \<and>
             (9 :: int) = int a + 3)"
proof
  fix rt
  have k: "0 < length (chord_pattern_finditer 0 numbered_line)" by (simp add: numbered_matches)
  have "map cp_pos (pl_chords (parse_chord_line rt numbered_line)) ! 0 = 9"
    by (simp add: numbered_parsed)
  then have p: "cp_pos (pl_chords (parse_chord_line rt numbered_line) ! 0) = 9"
    using k by (simp add: parse_chord_line_length)
  have le: "int (removed_marker_length rt numbered_line)
              \<le> cp_pos (pl_chords (parse_chord_line rt numbered_line) ! 0)"
    by (simp add: p numbered_parsed)
  from pos_before_marker_removal[OF k, of rt] le
  obtain a where "a \<le> length (pl_text (parse_chord_line rt numbered_line))"
    and "drop a (pl_text (parse_chord_line rt numbered_line)) =
           text_behind numbered_line (chord_pattern_finditer 0 numbered_line ! 0)"
    and "cp_pos (pl_chords (parse_chord_line rt numbered_line) ! 0) =
           int a + int (removed_marker_length rt numbered_line)"
    by blast
  then have "a \<le> length (u ''Hello world'') \<and> drop a (u ''Hello world'') = u ''world'' \<and>
             (9 :: int) = int a + 3"
    by (simp add: numbered_parsed numbered_matches p)
  then have "\<exists>a. a \<le> length (u ''Hello world'') \<and> drop a (u ''Hello world'') = u ''world'' \<and>
             (9 :: int) = int a + 3" ..
  with k p show "0 < length (chord_pattern_finditer 0 numbered_line) \<and>
        removed_marker_length rt numbered_line = 3 \<and>
        cp_pos (pl_chords (parse_chord_line rt numbered_line) ! 0) = 9 \<and>
        pl_text (parse_chord_line rt numbered_line) = u ''Hello world'' \<and>
        (\<exists>a. a \<le> length (u ''Hello world'') \<and> drop a (u ''Hello world'') = u ''world'' \<and>
             (9 :: int) = int a + 3)"
    by (simp add: numbered_parsed)
qed

text \<open>
  The claim C9 as it was stated (for every line that begins with a marker and has its
  chords behind it) fails where whitespace follows a chord that follows the marker: the
  marker that is removed from the text without chords then reaches beyond the chord.
  In \<^verbatim>\<open>1. [C] Hello\<close> the chord stands behind the marker \<^verbatim>\<open>1. \<close> of the line, its position
  is 3, and 4 characters are removed: no position of the returned text is 4 below 3.
\<close>

theorem pos_before_marker_removal_counterexample:
  "\<forall>rt. take 3 numbered_gap_line = u ''1. '' \<and>
        chord_pattern_finditer 0 numbered_gap_line = [(3, u ''C'')] \<and>
        map cp_pos (pl_chords (parse_chord_line rt numbered_gap_line)) = [3] \<and>
        pl_text (parse_chord_line rt numbered_gap_line) = u ''Hello'' \<and>
        removed_marker_length rt numbered_gap_line = 4 \<and>
        \<not> (\<exists>a :: nat. cp_pos (pl_chords (parse_chord_line rt numbered_gap_line) ! 0) =
                int a + int (removed_marker_length rt numbered_gap_line))"
proof
  fix rt
  have m: "chord_pattern_finditer 0 numbered_gap_line = [(3, u ''C'')]"
    by (simp add: numbered_gap_line_def u_def chord_eval)
  have t: "take 3 numbered_gap_line = u ''1. ''"
    by (simp add: numbered_gap_line_def u_def)
  have p: "map cp_pos (pl_chords (parse_chord_line rt numbered_gap_line)) = [3]"
    by (simp add: parse_chord_line_chords m upt_rec adjusted_pos_def)
  have x: "pl_text (parse_chord_line rt numbered_gap_line) = u ''Hello''"
    by (simp add: parse_chord_line_text numbered_gap_line_def u_def chord_eval)
  have n: "removed_marker_length rt numbered_gap_line = 4"
    by (simp add: removed_marker_length_def numbered_gap_line_def u_def chord_eval)
  have "cp_pos (pl_chords (parse_chord_line rt numbered_gap_line) ! 0) = 3"
    by (simp add: parse_chord_line_chords m upt_rec adjusted_pos_def)
  then have "\<not> (\<exists>a :: nat. cp_pos (pl_chords (parse_chord_line rt numbered_gap_line) ! 0) =
                int a + int (removed_marker_length rt numbered_gap_line))"
    by (simp add: n)
  with m t p x n
  show "take 3 numbered_gap_line = u ''1. '' \<and>
        chord_pattern_finditer 0 numbered_gap_line = [(3, u ''C'')] \<and>
        map cp_pos (pl_chords (parse_chord_line rt numbered_gap_line)) = [3] \<and>
        pl_text (parse_chord_line rt numbered_gap_line) = u ''Hello'' \<and>
        removed_marker_length rt numbered_gap_line = 4 \<and>
        \<not> (\<exists>a :: nat. cp_pos (pl_chords (parse_chord_line rt numbered_gap_line) ! 0) =
                int a + int (removed_marker_length rt numbered_gap_line))"
    by blast
qed

section \<open>The section type resolver\<close>

lemma lookup_type_fallback:
  "list_all (\<lambda>(key, val). \<not> str_contains key tp) items \<Longrightarrow> lookup_type items tp block_type = block_type"
  by (induction items) auto

lemmas label_eval =
  label_pattern_match_def label_tail_match_def label_number_match_def label_char_def at_end_def
  type_part_def lower_def is_ascii_def isdecimal_def isspace_def ascii_letter_def
  ascii_upper_char_def ascii_lower_char_def to_lower_char_def to_upper_char_def strip_def
  startswith_def u_def

lemma refrain_2_match:
  "label_pattern_match rt (lower rt (u ''Refrain 2'')) = Some (u ''refrain '', u ''2'')"
  by (simp add: label_eval)

lemma refrain_2_type_part: "type_part rt (u ''Refrain 2'') = u ''refrain''"
  by (simp add: type_part_def refrain_2_match) (simp add: label_eval)

lemma refrain_2_lookup:
  "lookup_type (cfg_label_to_type_map default_config) (u ''refrain'') block_type = u ''chorus''"
  by (simp add: default_config_def) (simp add: u_def startswith_def)

lemma couplet_3_type_part: "type_part rt (u ''Couplet 3'') = u ''couplet''"
  by (simp add: label_eval)

lemma couplet_3_unmapped:
  "list_all (\<lambda>(key, val). \<not> str_contains key (u ''couplet'')) (cfg_label_to_type_map default_config)"
  by (simp add: default_config_def) (simp add: u_def startswith_def)

text \<open>
  C7, as the code has it. The block keyword \<^verbatim>\<open>chorus\<close> with the label \<^verbatim>\<open>Refrain 2\<close> gives the
  type \<^verbatim>\<open>chorus\<close>, the number \<^verbatim>\<open>2\<close> and the name \<^verbatim>\<open>Refrain 2\<close> (and the table, not the
  keyword, decides: the keyword \<^verbatim>\<open>verse\<close> gives \<^verbatim>\<open>chorus\<close> as well). With a label that is
  not empty the name is the label. When no key of the table occurs in the text that is
  looked up, and when there is no label, the type is the block keyword.
\<close>

theorem section_info_resolution:
  "parse_section_info rt default_config (u ''chorus'') (Some (u ''Refrain 2'')) =
     \<lparr> si_name = u ''Refrain 2'', si_type = u ''chorus'', si_number = Some (u ''2'') \<rparr> \<and>
   si_type (parse_section_info rt default_config (u ''verse'') (Some (u ''Refrain 2''))) = u ''chorus'' \<and>
   (l \<noteq> [] \<longrightarrow> si_name (parse_section_info rt cfg block_type (Some l)) = l) \<and>
   (list_all (\<lambda>(key, val). \<not> str_contains key (type_part rt l)) (cfg_label_to_type_map cfg) \<longrightarrow>
      si_type (parse_section_info rt cfg block_type (Some l)) = block_type) \<and>
   si_type (parse_section_info rt cfg block_type None) = block_type"
proof (intro conjI impI)
  have ne: "u ''Refrain 2'' \<noteq> []" by (simp add: u_def)
  show "parse_section_info rt default_config (u ''chorus'') (Some (u ''Refrain 2'')) =
     \<lparr> si_name = u ''Refrain 2'', si_type = u ''chorus'', si_number = Some (u ''2'') \<rparr>"
    by (simp add: parse_section_info_def ne refrain_2_match refrain_2_type_part refrain_2_lookup)
  show "si_type (parse_section_info rt default_config (u ''verse'') (Some (u ''Refrain 2''))) = u ''chorus''"
    by (simp add: parse_section_info_def ne refrain_2_type_part refrain_2_lookup)
  show "si_name (parse_section_info rt cfg block_type (Some l)) = l" if "l \<noteq> []"
    using that by (simp add: parse_section_info_def)
  show "si_type (parse_section_info rt cfg block_type (Some l)) = block_type"
    if "list_all (\<lambda>(key, val). \<not> str_contains key (type_part rt l)) (cfg_label_to_type_map cfg)"
    using lookup_type_fallback[OF that] by (simp add: parse_section_info_def)
  show "si_type (parse_section_info rt cfg block_type None) = block_type"
    by (simp add: parse_section_info_def)
qed

theorem section_info_resolution_witness:
  "\<forall>rt. u ''Couplet 3'' \<noteq> [] \<and>
        list_all (\<lambda>(key, val). \<not> str_contains key (type_part rt (u ''Couplet 3'')))
          (cfg_label_to_type_map default_config) \<and>
        si_name (parse_section_info rt default_config (u ''verse'') (Some (u ''Couplet 3''))) = u ''Couplet 3'' \<and>
        si_type (parse_section_info rt default_config (u ''verse'') (Some (u ''Couplet 3''))) = u ''verse''"
proof
  fix rt
  have ne: "u ''Couplet 3'' \<noteq> []" by (simp add: u_def)
  have un: "list_all (\<lambda>(key, val). \<not> str_contains key (type_part rt (u ''Couplet 3'')))
          (cfg_label_to_type_map default_config)"
    by (simp only: couplet_3_type_part couplet_3_unmapped)
  from section_info_resolution[of rt "u ''Couplet 3''" default_config "u ''verse''"] ne un
  show "u ''Couplet 3'' \<noteq> [] \<and>
        list_all (\<lambda>(key, val). \<not> str_contains key (type_part rt (u ''Couplet 3'')))
          (cfg_label_to_type_map default_config) \<and>
        si_name (parse_section_info rt default_config (u ''verse'') (Some (u ''Couplet 3''))) = u ''Couplet 3'' \<and>
        si_type (parse_section_info rt default_config (u ''verse'') (Some (u ''Couplet 3''))) = u ''verse''"
    by blast
qed

text \<open>
  The claim C7 as it was stated (the name is the label whenever a label is supplied)
  fails for the empty label, which a line \<^verbatim>\<open>{c:}\<close> supplies: \<^verbatim>\<open>if label:\<close> takes it for no
  label, and the name is the keyword in title case.
\<close>

theorem empty_label_counterexample:
  "\<forall>rt. si_name (parse_section_info rt default_config (u ''chorus'') (Some [])) = u ''Chorus'' \<and>
        u ''Chorus'' \<noteq> []"
  by (simp add: parse_section_info_def title_def is_ascii_def u_def to_upper_char_def to_lower_char_def
        ascii_letter_def ascii_upper_char_def ascii_lower_char_def)


section \<open>The file parser\<close>

lemma parse_lines_append:
  "parse_lines rt cfg (xs @ ys) = foldl (parse_line rt cfg) (parse_lines rt cfg xs) ys"
  by (simp add: parse_lines_def)

lemma parse_line_other:
  "\<not> is_start_line l \<Longrightarrow> \<not> is_end_line l \<Longrightarrow>
     ps_sections (parse_line rt cfg st l) = ps_sections st \<and>
     ps_in_section (parse_line rt cfg st l) = ps_in_section st \<and>
     ps_current_section_info (parse_line rt cfg st l) = ps_current_section_info st"
  by (auto simp add: parse_line_def is_start_line_def is_end_line_def is_comment_line_def Let_def
        split: option.splits prod.splits)

lemma parse_line_start:
  "is_start_line s \<Longrightarrow>
     ps_in_section (parse_line rt cfg st s) \<and> ps_current_section_info (parse_line rt cfg st s) \<noteq> None"
  by (simp add: parse_line_def is_start_line_def is_comment_line_def Let_def
        split: option.splits prod.splits)

lemma parse_line_end:
  "is_end_line e \<Longrightarrow> ps_in_section st \<Longrightarrow> ps_current_section_info st = Some info \<Longrightarrow>
     ps_sections (parse_line rt cfg st e) =
       ps_sections st @ [create_section info (ps_current_section_content st)]"
  by (simp add: parse_line_def is_start_line_def is_end_line_def is_comment_line_def Let_def)

lemma foldl_other:
  "list_all (\<lambda>l. \<not> is_start_line l \<and> \<not> is_end_line l) body \<Longrightarrow>
     ps_sections (foldl (parse_line rt cfg) st body) = ps_sections st \<and>
     ps_in_section (foldl (parse_line rt cfg) st body) = ps_in_section st \<and>
     ps_current_section_info (foldl (parse_line rt cfg) st body) = ps_current_section_info st"
  by (induction body arbitrary: st) (simp_all add: parse_line_other)

lemmas parse_eval =
  parse_file_def parse_lines_def split_lines_def initial_parse_state_def parse_line_def
  u_def strip_def startswith_def isspace_def directive_match_def last_index_def
  parse_section_info_def title_def is_ascii_def to_upper_char_def to_lower_char_def
  ascii_letter_def ascii_upper_char_def ascii_lower_char_def create_section_def Let_def

lemma split_open_chorus_doc:
  "split_lines open_chorus_doc =
     [u ''{start_of_verse}'', u ''A'', u ''{end_of_verse}''] @ u ''{start_of_chorus}'' # [u ''B'']"
  by (simp add: open_chorus_doc_def split_lines_def u_def)

lemma line_kinds:
  "is_start_line (u ''{start_of_chorus}'')" "is_end_line (u ''{end_of_chorus}'')"
  "\<not> is_start_line (u ''B'')" "\<not> is_end_line (u ''B'')"
  by (simp_all add: is_start_line_def is_end_line_def is_comment_line_def u_def strip_def
        startswith_def isspace_def)

text \<open>
  C4, as the code has it. When the lines of a document end with a start-of-block line
  and lines behind it that neither start nor end a block, \<^verbatim>\<open>parse_file\<close> returns the
  sections that were emitted up to that start-of-block line: the section that it
  opened is still open at the end and is not in the list; one end-of-block line more
  would have added it. No line other than a start-of-block or an end-of-block line
  emits a section.
\<close>

theorem open_section_not_emitted:
  assumes "split_lines content = pre @ s # body" and "is_start_line s"
    and "list_all (\<lambda>l. \<not> is_start_line l \<and> \<not> is_end_line l) body"
  shows "snd (parse_file rt cfg content) = ps_sections (parse_lines rt cfg (pre @ [s])) \<and>
         ps_in_section (parse_lines rt cfg (split_lines content)) \<and>
         (\<forall>e. is_end_line e \<longrightarrow>
            length (ps_sections (parse_lines rt cfg (split_lines content @ [e]))) =
              Suc (length (snd (parse_file rt cfg content)))) \<and>
         (\<forall>st l. \<not> is_start_line l \<and> \<not> is_end_line l \<longrightarrow>
            ps_sections (parse_line rt cfg st l) = ps_sections st)"
proof -
  let ?st = "parse_lines rt cfg (pre @ [s])"
  have st: "?st = parse_line rt cfg (parse_lines rt cfg pre) s" by (simp add: parse_lines_def)
  from parse_line_start[OF assms(2), of rt cfg "parse_lines rt cfg pre"]
  have opn: "ps_in_section ?st" and info: "ps_current_section_info ?st \<noteq> None"
    by (simp_all add: st)
  have all: "parse_lines rt cfg (split_lines content) = foldl (parse_line rt cfg) ?st body"
    using parse_lines_append[of rt cfg "pre @ [s]" body] by (simp add: assms(1))
  from foldl_other[OF assms(3), of rt cfg ?st]
  have same: "ps_sections (parse_lines rt cfg (split_lines content)) = ps_sections ?st"
    and still: "ps_in_section (parse_lines rt cfg (split_lines content))"
    and info': "ps_current_section_info (parse_lines rt cfg (split_lines content)) \<noteq> None"
    using opn info by (simp_all add: all)
  have 1: "snd (parse_file rt cfg content) = ps_sections ?st"
    by (simp add: parse_file_def Let_def same)
  have 3: "length (ps_sections (parse_lines rt cfg (split_lines content @ [e]))) =
              Suc (length (snd (parse_file rt cfg content)))" if "is_end_line e" for e
  proof -
    from info' obtain i where i: "ps_current_section_info (parse_lines rt cfg (split_lines content)) = Some i"
      by auto
    have "parse_lines rt cfg (split_lines content @ [e]) =
            parse_line rt cfg (parse_lines rt cfg (split_lines content)) e"
      by (simp add: parse_lines_def)
    with parse_line_end[OF that still i, of rt cfg] show ?thesis
      by (simp add: parse_file_def Let_def)
  qed
  from 1 still 3 parse_line_other show ?thesis by blast
qed


theorem open_section_not_emitted_witness:
  "\<forall>rt. split_lines open_chorus_doc =
          [u ''{start_of_verse}'', u ''A'', u ''{end_of_verse}''] @ u ''{start_of_chorus}'' # [u ''B''] \<and>
        is_start_line (u ''{start_of_chorus}'') \<and>
        list_all (\<lambda>l. \<not> is_start_line l \<and> \<not> is_end_line l) [u ''B''] \<and>
        snd (parse_file rt default_config open_chorus_doc) = [verse_a] \<and>
        ps_in_section (parse_lines rt default_config (split_lines open_chorus_doc)) \<and>
        length (ps_sections (parse_lines rt default_config
                  (split_lines open_chorus_doc @ [u ''{end_of_chorus}'']))) = 2"
proof
  fix rt
  have b: "list_all (\<lambda>l. \<not> is_start_line l \<and> \<not> is_end_line l) [u ''B'']"
    by (simp add: line_kinds)
  have p: "ps_sections (parse_lines rt default_config
             ([u ''{start_of_verse}'', u ''A'', u ''{end_of_verse}''] @ [u ''{start_of_chorus}''])) = [verse_a]"
    by (simp add: verse_a_def parse_eval)
  from open_section_not_emitted[OF split_open_chorus_doc line_kinds(1) b, of rt default_config]
  have r1: "snd (parse_file rt default_config open_chorus_doc) = [verse_a]"
    and r2: "ps_in_section (parse_lines rt default_config (split_lines open_chorus_doc))"
    and r3: "\<forall>e. is_end_line e \<longrightarrow>
            length (ps_sections (parse_lines rt default_config (split_lines open_chorus_doc @ [e]))) =
              Suc (length (snd (parse_file rt default_config open_chorus_doc)))"
    unfolding p by blast+
  from r3[rule_format, OF line_kinds(2)] r1
  have r4: "length (ps_sections (parse_lines rt default_config
                  (split_lines open_chorus_doc @ [u ''{end_of_chorus}'']))) = 2"
    by simp
  from b line_kinds split_open_chorus_doc r1 r2 r4
  show "split_lines open_chorus_doc =
          [u ''{start_of_verse}'', u ''A'', u ''{end_of_verse}''] @ u ''{start_of_chorus}'' # [u ''B''] \<and>
        is_start_line (u ''{start_of_chorus}'') \<and>
        list_all (\<lambda>l. \<not> is_start_line l \<and> \<not> is_end_line l) [u ''B''] \<and>
        snd (parse_file rt default_config open_chorus_doc) = [verse_a] \<and>
        ps_in_section (parse_lines rt default_config (split_lines open_chorus_doc)) \<and>
        length (ps_sections (parse_lines rt default_config
                  (split_lines open_chorus_doc @ [u ''{end_of_chorus}'']))) = 2"
    by simp
qed

text \<open>
  The claim C4 as it was stated (only sections closed by an end-of-block directive are
  emitted) fails: a start-of-block directive closes and emits the section that is
  open. The document has no end-of-block line and its verse is returned.
\<close>

theorem only_closed_sections_counterexample:
  "\<forall>rt. filter is_end_line (split_lines unclosed_verse_doc) = [] \<and>
        snd (parse_file rt default_config unclosed_verse_doc) = [verse_a] \<and>
        snd (parse_file rt default_config unclosed_verse_doc) \<noteq> []"
proof
  fix rt
  have s: "split_lines unclosed_verse_doc =
             [u ''{start_of_verse}'', u ''A'', u ''{start_of_chorus}'', u ''B'']"
    by (simp add: unclosed_verse_doc_def split_lines_def u_def)
  have "filter is_end_line (split_lines unclosed_verse_doc) = []"
    unfolding s
    by (simp add: is_start_line_def is_end_line_def is_comment_line_def u_def strip_def
        startswith_def isspace_def)
  moreover have "snd (parse_file rt default_config unclosed_verse_doc) = [verse_a]"
    unfolding parse_file_def s by (simp add: verse_a_def parse_eval)
  ultimately show "filter is_end_line (split_lines unclosed_verse_doc) = [] \<and>
        snd (parse_file rt default_config unclosed_verse_doc) = [verse_a] \<and>
        snd (parse_file rt default_config unclosed_verse_doc) \<noteq> []"
    by simp
qed

section \<open>The deduplicator\<close>

lemma dedup_inv_init: "dedup_inv rt [] ([], Map.empty, [])"
  by (simp add: dedup_inv_def)

lemma find_append_Some: "find P xs = Some x \<Longrightarrow> find P (xs @ ys) = Some x"
  by (induction xs) (auto split: if_splits)

lemma find_append_None: "find P xs = None \<Longrightarrow> find P (xs @ ys) = find P ys"
  by (induction xs) (auto split: if_splits)

lemma dedup_inv_step:
  assumes inv: "dedup_inv rt seen (U, M, I)"
  shows "dedup_inv rt (seen @ [s])
           (case M (get_content_hash rt s) of
              Some k \<Rightarrow> (U, M, I @ [k])
            | None \<Rightarrow> (U @ [s], M(get_content_hash rt s \<mapsto> length U), I @ [length U]))"
proof -
  let ?H = "get_content_hash rt"
  from inv have len: "length I = length seen"
    and fwd: "\<And>k. k < length U \<Longrightarrow> M (?H (U ! k)) = Some k"
    and bwd: "\<And>h k. M h = Some k \<Longrightarrow> k < length U \<and> ?H (U ! k) = h"
    and idx: "\<And>i. i < length seen \<Longrightarrow> I ! i < length U \<and> ?H (U ! (I ! i)) = ?H (seen ! i)"
    and fst: "\<And>k. k < length U \<Longrightarrow> find (\<lambda>x. ?H x = ?H (U ! k)) seen = Some (U ! k)"
    and occ: "\<And>k. k < length U \<Longrightarrow> k \<in> set I"
    by (auto simp: dedup_inv_def)
  show ?thesis
  proof (cases "M (?H s)")
    case (Some k)
    from bwd[OF Some] have k: "k < length U" "?H (U ! k) = ?H s" by simp_all
    have "\<forall>i<length (seen @ [s]). (I @ [k]) ! i < length U \<and>
            ?H (U ! ((I @ [k]) ! i)) = ?H ((seen @ [s]) ! i)"
      using idx k len by (auto simp: nth_append less_Suc_eq)
    moreover have "\<forall>k<length U. find (\<lambda>x. ?H x = ?H (U ! k)) (seen @ [s]) = Some (U ! k)"
      using fst by (simp add: find_append_Some)
    ultimately show ?thesis
      using Some len fwd bwd occ by (simp add: dedup_inv_def)
  next
    case None
    have new: "\<And>k. k < length U \<Longrightarrow> ?H (U ! k) \<noteq> ?H s"
      using fwd None by fastforce
    have a: "\<forall>k<length (U @ [s]). (M(?H s \<mapsto> length U)) (?H ((U @ [s]) ! k)) = Some k"
      using fwd new by (auto simp: nth_append less_Suc_eq)
    have b: "\<forall>h k. (M(?H s \<mapsto> length U)) h = Some k \<longrightarrow>
               k < length (U @ [s]) \<and> ?H ((U @ [s]) ! k) = h"
      using bwd by (auto simp: nth_append less_Suc_eq split: if_splits)
    have c: "\<forall>i<length (seen @ [s]). (I @ [length U]) ! i < length (U @ [s]) \<and>
            ?H ((U @ [s]) ! ((I @ [length U]) ! i)) = ?H ((seen @ [s]) ! i)"
      using idx len by (auto simp: nth_append less_Suc_eq)
    have none: "find (\<lambda>x. ?H x = ?H s) seen = None"
    proof -
      have "\<And>x. x \<in> set seen \<Longrightarrow> ?H x \<noteq> ?H s"
      proof -
        fix x assume "x \<in> set seen"
        then obtain i where i: "i < length seen" "seen ! i = x" by (auto simp: in_set_conv_nth)
        from idx[OF i(1)] new[of "I ! i"] i(2) show "?H x \<noteq> ?H s" by auto
      qed
      then show ?thesis by (auto simp: find_None_iff)
    qed
    have d: "\<forall>k<length (U @ [s]).
               find (\<lambda>x. ?H x = ?H ((U @ [s]) ! k)) (seen @ [s]) = Some ((U @ [s]) ! k)"
      using fst none by (auto simp: nth_append less_Suc_eq find_append_Some find_append_None)
    have e: "\<forall>k<length (U @ [s]). k \<in> set (I @ [length U])"
      using occ by (auto simp: less_Suc_eq)
    show ?thesis
      using None len a b c d e by (simp add: dedup_inv_def)
  qed
qed

lemma dedup_inv_loop:
  "dedup_inv rt seen st \<Longrightarrow> dedup_inv rt (seen @ xs) (deduplicate_loop rt xs st)"
proof (induction xs arbitrary: seen st)
  case Nil then show ?case by simp
next
  case (Cons s xs)
  obtain U M I where st: "st = (U, M, I)" by (cases st) auto
  from dedup_inv_step[OF Cons.prems[unfolded st], of s]
  have "dedup_inv rt (seen @ [s])
           (case M (get_content_hash rt s) of
              Some k \<Rightarrow> (U, M, I @ [k])
            | None \<Rightarrow> (U @ [s], M(get_content_hash rt s \<mapsto> length U), I @ [length U]))" .
  from Cons.IH[OF this] show ?case
    by (simp add: st Let_def split: option.splits)
qed

lemma dedup_inv_result:
  "deduplicate_sections rt sections = (U, I) \<Longrightarrow>
     \<exists>M. dedup_inv rt sections (U, M, I)"
  using dedup_inv_loop[OF dedup_inv_init, of rt sections]
  by (auto simp: deduplicate_sections_def split: prod.splits)


lemma is_comment_line_examples:
  "\<not> is_comment_line (u ''Line 1'')" "\<not> is_comment_line (u ''Line 2'')" "is_comment_line (u ''{c: X}'')"
  by (simp_all add: is_comment_line_def strip_def startswith_def u_def isspace_def)

lemma example_hashes: "get_content_hash rt chorus_1 = get_content_hash rt verse_1"
  by (simp add: get_content_hash_def verse_1_def chorus_1_def is_comment_line_examples)

lemma example_dedup: "deduplicate_sections rt [verse_1, chorus_1] = ([verse_1], [0, 0])"
  by (simp add: deduplicate_sections_def example_hashes Let_def)

text \<open>What the invariant says of the result.\<close>

lemma dedup_index_map_facts:
  assumes "deduplicate_sections rt sections = (unique_sections, index_map)"
  shows "length index_map = length sections \<and>
         (\<forall>i<length sections. \<forall>j<length sections.
            get_content_hash rt (sections ! i) = get_content_hash rt (sections ! j) \<longrightarrow>
            index_map ! i = index_map ! j) \<and>
         (\<forall>i<length sections.
            index_map ! i < length unique_sections \<and>
            find (\<lambda>s. get_content_hash rt s = get_content_hash rt (sections ! i)) sections =
              Some (unique_sections ! (index_map ! i)))"
proof -
  let ?H = "get_content_hash rt"
  from dedup_inv_result[OF assms] obtain M where "dedup_inv rt sections (unique_sections, M, index_map)" ..
  then have len: "length index_map = length sections"
    and fwd: "\<And>k. k < length unique_sections \<Longrightarrow> M (?H (unique_sections ! k)) = Some k"
    and idx: "\<And>i. i < length sections \<Longrightarrow> index_map ! i < length unique_sections \<and>
                ?H (unique_sections ! (index_map ! i)) = ?H (sections ! i)"
    and fst: "\<And>k. k < length unique_sections \<Longrightarrow>
                find (\<lambda>x. ?H x = ?H (unique_sections ! k)) sections = Some (unique_sections ! k)"
    by (auto simp: dedup_inv_def)
  have same: "index_map ! i = index_map ! j"
    if "i < length sections" "j < length sections" "?H (sections ! i) = ?H (sections ! j)" for i j
  proof -
    from idx[OF that(1)] idx[OF that(2)] that(3)
    have "?H (unique_sections ! (index_map ! i)) = ?H (unique_sections ! (index_map ! j))" by simp
    with fwd[of "index_map ! i"] fwd[of "index_map ! j"] idx[OF that(1)] idx[OF that(2)]
    show ?thesis by simp
  qed
  have first: "index_map ! i < length unique_sections \<and>
               find (\<lambda>s. ?H s = ?H (sections ! i)) sections = Some (unique_sections ! (index_map ! i))"
    if "i < length sections" for i
    using idx[OF that] fst[of "index_map ! i"] by simp
  from len same first show ?thesis by blast
qed


text \<open>
  C5. For every list of sections the index map of \<^verbatim>\<open>deduplicate_sections\<close> is as long as
  the list; two sections with the same content hash get the same index, wherever they
  stand; and the unique section at the index of a section is the first section of the
  list with that content hash.
\<close>

theorem deduplicate_sections_index_map:
  assumes "deduplicate_sections rt sections = (unique_sections, index_map)"
  shows "length index_map = length sections \<and>
         (\<forall>i<length sections. \<forall>j<length sections.
            get_content_hash rt (sections ! i) = get_content_hash rt (sections ! j) \<longrightarrow>
            index_map ! i = index_map ! j) \<and>
         (\<forall>i<length sections.
            index_map ! i < length unique_sections \<and>
            find (\<lambda>s. get_content_hash rt s = get_content_hash rt (sections ! i)) sections =
              Some (unique_sections ! (index_map ! i)))"
  using assms by (rule dedup_index_map_facts)

theorem deduplicate_sections_index_map_witness:
  "\<forall>rt. deduplicate_sections rt [verse_1, chorus_1] = ([verse_1], [0, 0]) \<and>
        length [0::nat, 0] = length [verse_1, chorus_1] \<and>
        [0::nat, 0] ! 0 = [0, 0] ! 1 \<and>
        find (\<lambda>s. get_content_hash rt s = get_content_hash rt chorus_1) [verse_1, chorus_1] =
          Some ([verse_1] ! ([0, 0] ! 1))"
proof
  fix rt
  have h: "deduplicate_sections rt [verse_1, chorus_1] = ([verse_1], [0, 0])"
    by (rule example_dedup)
  from deduplicate_sections_index_map[OF h]
  have "\<forall>i<length [verse_1, chorus_1].
          [0, 0] ! i < length [verse_1] \<and>
          find (\<lambda>s. get_content_hash rt s = get_content_hash rt ([verse_1, chorus_1] ! i))
            [verse_1, chorus_1] = Some ([verse_1] ! ([0, 0] ! i))"
    by blast
  from this[rule_format, of 1]
  have "find (\<lambda>s. get_content_hash rt s = get_content_hash rt chorus_1)
          [verse_1, chorus_1] = Some ([verse_1] ! ([0, 0] ! 1))"
    by simp
  with h show "deduplicate_sections rt [verse_1, chorus_1] = ([verse_1], [0, 0]) \<and>
        length [0::nat, 0] = length [verse_1, chorus_1] \<and>
        [0::nat, 0] ! 0 = [0, 0] ! 1 \<and>
        find (\<lambda>s. get_content_hash rt s = get_content_hash rt chorus_1) [verse_1, chorus_1] =
          Some ([verse_1] ! ([0, 0] ! 1))"
    by simp
qed

text \<open>
  C6. Two sections whose content lines are equal once the comment lines (the lines that
  begin with \<^verbatim>\<open>{c:\<close> after stripping) are removed have the same content hash; in
  particular sections with the lines \<^verbatim>\<open>["Line 1", "Line 2"]\<close> and
  \<^verbatim>\<open>["Line 1", "{c: X}", "Line 2"]\<close> have the same hash and are deduplicated to one
  unique section.
\<close>

theorem content_hash_ignores_comment_lines:
  "(filter (\<lambda>line. \<not> is_comment_line line) (sec_content a) =
      filter (\<lambda>line. \<not> is_comment_line line) (sec_content b) \<longrightarrow>
    get_content_hash rt a = get_content_hash rt b) \<and>
   (sec_content a = [u ''Line 1'', u ''Line 2''] \<and>
    sec_content b = [u ''Line 1'', u ''{c: X}'', u ''Line 2''] \<longrightarrow>
    get_content_hash rt a = get_content_hash rt b \<and>
    deduplicate_sections rt [a, b] = ([a], [0, 0]))"
proof (intro conjI impI)
  assume "filter (\<lambda>line. \<not> is_comment_line line) (sec_content a) =
      filter (\<lambda>line. \<not> is_comment_line line) (sec_content b)"
  then show "get_content_hash rt a = get_content_hash rt b"
    by (simp add: get_content_hash_def)
next
  assume c: "sec_content a = [u ''Line 1'', u ''Line 2''] \<and>
    sec_content b = [u ''Line 1'', u ''{c: X}'', u ''Line 2'']"
  then show h: "get_content_hash rt a = get_content_hash rt b"
    by (simp add: get_content_hash_def is_comment_line_examples)
  then show "deduplicate_sections rt [a, b] = ([a], [0, 0])"
    by (simp add: deduplicate_sections_def Let_def)
qed

theorem content_hash_ignores_comment_lines_witness:
  "\<forall>rt.
     filter (\<lambda>line. \<not> is_comment_line line) (sec_content verse_1) =
       filter (\<lambda>line. \<not> is_comment_line line) (sec_content chorus_1) \<and>
     sec_content verse_1 = [u ''Line 1'', u ''Line 2''] \<and>
     sec_content chorus_1 = [u ''Line 1'', u ''{c: X}'', u ''Line 2''] \<and>
     get_content_hash rt verse_1 = get_content_hash rt chorus_1 \<and>
     deduplicate_sections rt [verse_1, chorus_1] = ([verse_1], [0, 0])"
proof
  fix rt
  have 1: "filter (\<lambda>line. \<not> is_comment_line line) (sec_content verse_1) =
       filter (\<lambda>line. \<not> is_comment_line line) (sec_content chorus_1)"
    by (simp add: verse_1_def chorus_1_def is_comment_line_examples)
  have 2: "sec_content verse_1 = [u ''Line 1'', u ''Line 2''] \<and>
     sec_content chorus_1 = [u ''Line 1'', u ''{c: X}'', u ''Line 2'']"
    by (simp add: verse_1_def chorus_1_def)
  from content_hash_ignores_comment_lines[of verse_1 chorus_1 rt] 1 2
  show "filter (\<lambda>line. \<not> is_comment_line line) (sec_content verse_1) =
       filter (\<lambda>line. \<not> is_comment_line line) (sec_content chorus_1) \<and>
     sec_content verse_1 = [u ''Line 1'', u ''Line 2''] \<and>
     sec_content chorus_1 = [u ''Line 1'', u ''{c: X}'', u ''Line 2''] \<and>
     get_content_hash rt verse_1 = get_content_hash rt chorus_1 \<and>
     deduplicate_sections rt [verse_1, chorus_1] = ([verse_1], [0, 0])"
    by blast
qed

section \<open>The slides and the layout\<close>

lemma length_slide_ids: "length (slide_ids rt i U) = length U"
  by (induction U arbitrary: i) auto

lemma slide_ids_nth: "k < length U \<Longrightarrow> slide_ids rt i U ! k = slide_id_of rt (i + k) (U ! k)"
  by (induction U arbitrary: i k) (auto simp: nth_Cons split: nat.splits)

lemma slides_loop_ids:
  "snd (slides_loop rt cfg i U (S, ids)) = ids @ slide_ids rt i U"
  by (induction U arbitrary: i S ids) (auto simp: Let_def)

lemma slides_loop_dom:
  "dom (fst (slides_loop rt cfg i U (S, ids))) = dom S \<union> set (slide_ids rt i U)"
  by (induction U arbitrary: i S ids) (auto simp: Let_def)

lemma slides_loop_other:
  "x \<notin> set (slide_ids rt i U) \<Longrightarrow> fst (slides_loop rt cfg i U (S, ids)) x = S x"
  by (induction U arbitrary: i S ids) (auto simp: Let_def)

lemma slides_loop_lookup:
  "distinct (slide_ids rt i U) \<Longrightarrow> k < length U \<Longrightarrow>
     fst (slides_loop rt cfg i U (S, ids)) (slide_ids rt i U ! k) =
       Some (create_freeshow_slide rt cfg (U ! k))"
proof (induction U arbitrary: i S ids k)
  case Nil then show ?case by simp
next
  case (Cons s U)
  show ?case
  proof (cases k)
    case 0
    with Cons.prems show ?thesis by (simp add: Let_def slides_loop_other)
  next
    case (Suc k')
    with Cons.prems Cons.IH[of "i + 1" k'] show ?thesis by (simp add: Let_def)
  qed
qed

lemma layout_of_Inr:
  "\<forall>i\<in>set index_map. i < length ids \<Longrightarrow> layout_of ids index_map = Inr (map (\<lambda>i. ids ! i) index_map)"
  by (induction index_map) auto

lemma unique_and_index_facts:
  assumes "unique_and_index rt cfg sections = (U, I)"
  shows "length I = length sections \<and> (\<forall>i\<in>set I. i < length U) \<and> (\<forall>k<length U. k \<in> set I)"
proof (cases "cfg_deduplicate_sections cfg")
  case True
  with assms have d: "deduplicate_sections rt sections = (U, I)" by (simp add: unique_and_index_def)
  from dedup_inv_result[OF d] obtain M where inv: "dedup_inv rt sections (U, M, I)" ..
  from inv have 1: "length I = length sections" by (simp add: dedup_inv_def)
  from inv have 2: "\<forall>k<length U. k \<in> set I" by (simp add: dedup_inv_def)
  from inv 1 have "\<forall>i<length I. I ! i < length U" by (simp add: dedup_inv_def)
  then have "\<forall>i\<in>set I. i < length U" by (auto simp: in_set_conv_nth)
  with 1 2 show ?thesis by blast
next
  case False
  with assms have "U = sections" "I = [0..<length sections]" by (auto simp add: unique_and_index_def)
  then show ?thesis by simp
qed

lemma build_freeshow_data_Inr:
  assumes ui: "unique_and_index rt cfg sections = (U, I)"
  shows "\<exists>d. build_freeshow_data rt cfg t fn md sections = Inr d \<and>
             show_slides d = fst (slides_loop rt cfg 0 U (Map.empty, [])) \<and>
             layout_slides d = map (\<lambda>i. slide_ids rt 0 U ! i) I"
proof -
  obtain S ids where sl: "slides_loop rt cfg 0 U (Map.empty, []) = (S, ids)"
    by (cases "slides_loop rt cfg 0 U (Map.empty, [])") auto
  from slides_loop_ids[of rt cfg 0 U Map.empty "[]"] sl have ids: "ids = slide_ids rt 0 U" by simp
  from unique_and_index_facts[OF ui] have "\<forall>i\<in>set I. i < length (slide_ids rt 0 U)"
    by (simp add: length_slide_ids)
  from layout_of_Inr[OF this]
  have lo: "layout_of (slide_ids rt 0 U) I = Inr (map (\<lambda>i. slide_ids rt 0 U ! i) I)" .
  show ?thesis
    by (simp add: build_freeshow_data_def ui sl lo Let_def ids)
qed


section \<open>The example documents\<close>

lemma split_two: "split_lines two_sections_doc =
     [u ''{title: Song}'', u ''{start_of_verse}'', u ''La'', u ''{end_of_verse}'',
      u ''{start_of_chorus}'', u ''La'', u ''{end_of_chorus}'']"
  by (simp add: two_sections_doc_def split_lines_def u_def)

lemma parse_two: "parse_file rt default_config two_sections_doc =
   ([u ''title'' \<mapsto> u ''Song''],
    [\<lparr> sec_name = u ''Verse'', sec_type = u ''verse'', sec_number = None, sec_content = [u ''La''], sec_raw_content = u ''La'' \<rparr>,
     \<lparr> sec_name = u ''Chorus'', sec_type = u ''chorus'', sec_number = None, sec_content = [u ''La''], sec_raw_content = u ''La'' \<rparr>])"
  by (simp add: parse_file_def parse_lines_def split_two initial_parse_state_def parse_line_def
       u_def strip_def startswith_def isspace_def directive_match_def last_index_def
       parse_section_info_def title_def is_ascii_def to_upper_char_def to_lower_char_def
       ascii_letter_def ascii_upper_char_def ascii_lower_char_def create_section_def Let_def)

lemma parse_two_sections_doc:
  "parse_file rt default_config two_sections_doc = ([u ''title'' \<mapsto> u ''Song''], [la_verse, la_chorus])"
  by (simp add: parse_two la_verse_def la_chorus_def)

lemma default_flags:
  "cfg_deduplicate_sections default_config" "cfg_fix_french_punctuation default_config"
  by (simp_all add: default_config_def)

lemma la_unique_and_index:
  "unique_and_index rt default_config [la_verse, la_chorus] = ([la_verse], [0, 0])"
  by (simp add: unique_and_index_def default_flags deduplicate_sections_def get_content_hash_def
        la_verse_def la_chorus_def Let_def)

lemma la_global_group:
  "slide_globalGroup (create_freeshow_slide rt default_config la_verse) = Some (u ''verse'')"
  by (simp add: create_freeshow_slide_def default_config_def la_verse_def u_def)

lemma la_representative: "representative rt default_config [la_verse, la_chorus] (Suc 0) = la_verse"
  by (simp add: representative_def default_flags first_with_hash_def get_content_hash_def
        la_verse_def la_chorus_def)

lemma parse_metadata_only_doc:
  "parse_file rt default_config metadata_only_doc = ([u ''title'' \<mapsto> u ''Song'', u ''key'' \<mapsto> u ''C''], [])"
  by (simp add: parse_file_def parse_lines_def metadata_only_doc_def split_lines_def initial_parse_state_def parse_line_def
       u_def strip_def startswith_def isspace_def directive_match_def last_index_def Let_def)

lemma fix_french_punctuation_Nil: "fix_french_punctuation [] = []"
  by (simp add: fix_french_punctuation_def)

lemma fix_song: "fix_french_punctuation (u ''Song'') = u ''Song''"
  by (simp add: fix_french_punctuation_def u_def double_punct_sub.simps(2) opening_guillemets_sub.simps(2)
        isspace_def is_double_punct_def RAQUO_def LAQUO_def)

section \<open>The show\<close>

text \<open>
  C10. Every index of a unique section occurs in the index map of
  \<^verbatim>\<open>deduplicate_sections\<close>; and \<^verbatim>\<open>generate_freeshow_file\<close> returns a show (no index of the
  layout is out of range) in which every slide identifier of the slides mapping occurs
  in the layout: there is no orphan slide.
\<close>

theorem no_orphan_slide:
  "(\<forall>k<length (fst (deduplicate_sections rt sections)).
       k \<in> set (snd (deduplicate_sections rt sections))) \<and>
   (\<exists>d. generate_freeshow_file rt cfg current_time filename content = Inr d \<and>
        (\<forall>slide_id\<in>dom (show_slides d). slide_id \<in> set (layout_slides d)))"
proof
  obtain U I where d: "deduplicate_sections rt sections = (U, I)"
    by (cases "deduplicate_sections rt sections") auto
  from dedup_inv_result[OF d] obtain M where "dedup_inv rt sections (U, M, I)" ..
  then show "\<forall>k<length (fst (deduplicate_sections rt sections)).
       k \<in> set (snd (deduplicate_sections rt sections))"
    by (simp add: d dedup_inv_def)
next
  obtain md secs where pf: "parse_file rt cfg content = (md, secs)"
    by (cases "parse_file rt cfg content") auto
  obtain U I where ui: "unique_and_index rt cfg secs = (U, I)"
    by (cases "unique_and_index rt cfg secs") auto
  from build_freeshow_data_Inr[OF ui, of current_time filename md]
  obtain d where d: "build_freeshow_data rt cfg current_time filename md secs = Inr d"
    and sl: "show_slides d = fst (slides_loop rt cfg 0 U (Map.empty, []))"
    and lo: "layout_slides d = map (\<lambda>i. slide_ids rt 0 U ! i) I" by blast
  have "slide_id \<in> set (layout_slides d)" if "slide_id \<in> dom (show_slides d)" for slide_id
  proof -
    from that have "slide_id \<in> set (slide_ids rt 0 U)"
      by (simp add: sl slides_loop_dom)
    then obtain k where k: "k < length U" "slide_ids rt 0 U ! k = slide_id"
      by (auto simp: in_set_conv_nth length_slide_ids)
    from unique_and_index_facts[OF ui] k(1) have "k \<in> set I" by simp
    with k(2) show ?thesis by (auto simp: lo)
  qed
  with d pf show "\<exists>d. generate_freeshow_file rt cfg current_time filename content = Inr d \<and>
        (\<forall>slide_id\<in>dom (show_slides d). slide_id \<in> set (layout_slides d))"
    by (auto simp: generate_freeshow_file_def)
qed

theorem no_orphan_slide_witness:
  "\<forall>rt current_time.
     0 < length (fst (deduplicate_sections rt [la_verse, la_chorus])) \<and>
     0 \<in> set (snd (deduplicate_sections rt [la_verse, la_chorus])) \<and>
     (\<exists>d. generate_freeshow_file rt default_config current_time (u ''song'') two_sections_doc = Inr d \<and>
          slide_id_of rt 0 la_verse \<in> dom (show_slides d) \<and>
          slide_id_of rt 0 la_verse \<in> set (layout_slides d))"
proof (intro allI)
  fix rt :: pyrt and current_time :: int
  from la_unique_and_index[of rt]
  have dd: "deduplicate_sections rt [la_verse, la_chorus] = ([la_verse], [0, 0])"
    by (simp add: unique_and_index_def default_flags)
  from no_orphan_slide[of rt "[la_verse, la_chorus]" default_config current_time "u ''song''" two_sections_doc]
  obtain d where k: "\<forall>k<length (fst (deduplicate_sections rt [la_verse, la_chorus])).
             k \<in> set (snd (deduplicate_sections rt [la_verse, la_chorus]))"
    and d: "generate_freeshow_file rt default_config current_time (u ''song'') two_sections_doc = Inr d"
    and o: "\<forall>slide_id\<in>dom (show_slides d). slide_id \<in> set (layout_slides d)" by blast
  from build_freeshow_data_Inr[OF la_unique_and_index, of rt current_time "u ''song''" "[u ''title'' \<mapsto> u ''Song'']"] d
  have sl: "show_slides d = fst (slides_loop rt default_config 0 [la_verse] (Map.empty, []))"
    by (simp add: generate_freeshow_file_def parse_two_sections_doc)
  have m: "slide_id_of rt 0 la_verse \<in> dom (show_slides d)"
    by (simp add: sl Let_def)
  with o have "slide_id_of rt 0 la_verse \<in> set (layout_slides d)" by blast
  with k d m dd
  show "0 < length (fst (deduplicate_sections rt [la_verse, la_chorus])) \<and>
     0 \<in> set (snd (deduplicate_sections rt [la_verse, la_chorus])) \<and>
     (\<exists>d. generate_freeshow_file rt default_config current_time (u ''song'') two_sections_doc = Inr d \<and>
          slide_id_of rt 0 la_verse \<in> dom (show_slides d) \<and>
          slide_id_of rt 0 la_verse \<in> set (layout_slides d))"
    by simp
qed

lemma unique_and_index_representative:
  assumes ui: "unique_and_index rt cfg sections = (U, I)" and p: "p < length sections"
  shows "I ! p < length U \<and> U ! (I ! p) = representative rt cfg sections p"
proof (cases "cfg_deduplicate_sections cfg")
  case True
  with ui have d: "deduplicate_sections rt sections = (U, I)" by (simp add: unique_and_index_def)
  from dedup_index_map_facts[OF d] p
  have "I ! p < length U \<and>
        find (\<lambda>s. get_content_hash rt s = get_content_hash rt (sections ! p)) sections = Some (U ! (I ! p))"
    by blast
  with True show ?thesis by (simp add: representative_def first_with_hash_def)
next
  case False
  with ui have "U = sections" "I = [0..<length sections]" by (auto simp add: unique_and_index_def)
  with False p show ?thesis by (simp add: representative_def)
qed

text \<open>
  C1, as the code has it. The layout has one entry for each section of the document,
  and the entry at a position, read through the slides, is the slide built from the
  representative of the section there: with deduplication the first section of the
  document with the same content hash, whatever its type. This holds when the
  identifiers of the slides are pairwise different (an identifier that came twice would
  have overwritten a slide).
\<close>

theorem layout_replay:
  assumes pf: "parse_file rt cfg content = (file_metadata, sections)"
    and dist: "distinct (slide_ids rt 0 (fst (unique_and_index rt cfg sections)))"
  shows "\<exists>d. generate_freeshow_file rt cfg current_time filename content = Inr d \<and>
             length (replay_layout d) = length sections \<and>
             (\<forall>p<length sections.
                replay_layout d ! p =
                  Some (create_freeshow_slide rt cfg (representative rt cfg sections p)))"
proof -
  obtain U I where ui: "unique_and_index rt cfg sections = (U, I)"
    by (cases "unique_and_index rt cfg sections") auto
  from build_freeshow_data_Inr[OF ui, of current_time filename file_metadata]
  obtain d where d: "build_freeshow_data rt cfg current_time filename file_metadata sections = Inr d"
    and sl: "show_slides d = fst (slides_loop rt cfg 0 U (Map.empty, []))"
    and lo: "layout_slides d = map (\<lambda>i. slide_ids rt 0 U ! i) I" by blast
  from unique_and_index_facts[OF ui] have len: "length I = length sections" by simp
  from dist ui have dU: "distinct (slide_ids rt 0 U)" by simp
  have "replay_layout d ! p = Some (create_freeshow_slide rt cfg (representative rt cfg sections p))"
    if p: "p < length sections" for p
  proof -
    from unique_and_index_representative[OF ui p]
    have k: "I ! p < length U" and r: "U ! (I ! p) = representative rt cfg sections p" by simp_all
    from slides_loop_lookup[OF dU k, of cfg Map.empty "[]"] p len r
    show ?thesis by (simp add: replay_layout_def lo sl)
  qed
  with d pf len lo show ?thesis
    by (auto simp: generate_freeshow_file_def replay_layout_def)
qed

theorem layout_replay_witness:
  "\<forall>rt current_time.
     parse_file rt default_config two_sections_doc = ([u ''title'' \<mapsto> u ''Song''], [la_verse, la_chorus]) \<and>
     distinct (slide_ids rt 0 (fst (unique_and_index rt default_config [la_verse, la_chorus]))) \<and>
     (\<exists>d. generate_freeshow_file rt default_config current_time (u ''song'') two_sections_doc = Inr d \<and>
          length (replay_layout d) = 2 \<and>
          replay_layout d ! 1 = Some (create_freeshow_slide rt default_config la_verse))"
proof (intro allI)
  fix rt :: pyrt and current_time :: int
  have pf: "parse_file rt default_config two_sections_doc = ([u ''title'' \<mapsto> u ''Song''], [la_verse, la_chorus])"
    by (rule parse_two_sections_doc)
  have dist: "distinct (slide_ids rt 0 (fst (unique_and_index rt default_config [la_verse, la_chorus])))"
    by (simp add: la_unique_and_index)
  from layout_replay[OF pf dist, of current_time "u ''song''"]
  obtain d where d: "generate_freeshow_file rt default_config current_time (u ''song'') two_sections_doc = Inr d"
    and len: "length (replay_layout d) = length [la_verse, la_chorus]"
    and rp: "\<forall>p<length [la_verse, la_chorus]. replay_layout d ! p =
               Some (create_freeshow_slide rt default_config (representative rt default_config [la_verse, la_chorus] p))"
    by blast
  from rp[rule_format, of 1]
  have "replay_layout d ! 1 = Some (create_freeshow_slide rt default_config la_verse)"
    by (simp add: la_representative)
  with pf dist d len
  show "parse_file rt default_config two_sections_doc = ([u ''title'' \<mapsto> u ''Song''], [la_verse, la_chorus]) \<and>
     distinct (slide_ids rt 0 (fst (unique_and_index rt default_config [la_verse, la_chorus]))) \<and>
     (\<exists>d. generate_freeshow_file rt default_config current_time (u ''song'') two_sections_doc = Inr d \<and>
          length (replay_layout d) = 2 \<and>
          replay_layout d ! 1 = Some (create_freeshow_slide rt default_config la_verse))"
    by simp
qed

text \<open>
  The claim C1 as it was stated (the replay gives the declared type at every
  position) fails: a verse and a chorus with the same content are collapsed onto the
  slide of the verse, and the replay shows the global group of a verse at both
  positions.
\<close>

theorem layout_replay_counterexample:
  "\<forall>rt current_time.
     map sec_type (snd (parse_file rt default_config two_sections_doc)) = [u ''verse'', u ''chorus''] \<and>
     map (map_of (cfg_global_groups default_config)) [u ''verse'', u ''chorus''] =
       [Some (u ''verse''), Some (u ''chorus'')] \<and>
     (\<exists>d. generate_freeshow_file rt default_config current_time (u ''song'') two_sections_doc = Inr d \<and>
          map (map_option slide_globalGroup) (replay_layout d) =
            [Some (Some (u ''verse'')), Some (Some (u ''verse''))] \<and>
          map (map_option slide_globalGroup) (replay_layout d) \<noteq>
            map (\<lambda>section. Some (map_of (cfg_global_groups default_config) (sec_type section)))
              (snd (parse_file rt default_config two_sections_doc)))"
proof (intro allI conjI)
  fix rt :: pyrt and current_time :: int
  show "map sec_type (snd (parse_file rt default_config two_sections_doc)) = [u ''verse'', u ''chorus'']"
    by (simp add: parse_two_sections_doc la_verse_def la_chorus_def)
  show g: "map (map_of (cfg_global_groups default_config)) [u ''verse'', u ''chorus''] =
       [Some (u ''verse''), Some (u ''chorus'')]"
    by (simp add: default_config_def u_eq_iff)
  from build_freeshow_data_Inr[OF la_unique_and_index, of rt current_time "u ''song''" "[u ''title'' \<mapsto> u ''Song'']"]
  obtain d where d: "build_freeshow_data rt default_config current_time (u ''song'')
                       [u ''title'' \<mapsto> u ''Song''] [la_verse, la_chorus] = Inr d"
    and sl: "show_slides d = fst (slides_loop rt default_config 0 [la_verse] (Map.empty, []))"
    and lo: "layout_slides d = map (\<lambda>i. slide_ids rt 0 [la_verse] ! i) [0, 0]" by blast
  have r: "map (map_option slide_globalGroup) (replay_layout d) =
            [Some (Some (u ''verse'')), Some (Some (u ''verse''))]"
    by (simp add: replay_layout_def sl lo Let_def la_global_group)
  have "map (\<lambda>section. Some (map_of (cfg_global_groups default_config) (sec_type section)))
              (snd (parse_file rt default_config two_sections_doc)) =
          [Some (Some (u ''verse'')), Some (Some (u ''chorus''))]"
    using g by (simp add: parse_two_sections_doc la_verse_def la_chorus_def)
  with r have "map (map_option slide_globalGroup) (replay_layout d) \<noteq>
            map (\<lambda>section. Some (map_of (cfg_global_groups default_config) (sec_type section)))
              (snd (parse_file rt default_config two_sections_doc))"
    by (simp add: u_eq_iff)
  with d r show "\<exists>d. generate_freeshow_file rt default_config current_time (u ''song'') two_sections_doc = Inr d \<and>
          map (map_option slide_globalGroup) (replay_layout d) =
            [Some (Some (u ''verse'')), Some (Some (u ''verse''))] \<and>
          map (map_option slide_globalGroup) (replay_layout d) \<noteq>
            map (\<lambda>section. Some (map_of (cfg_global_groups default_config) (sec_type section)))
              (snd (parse_file rt default_config two_sections_doc))"
    by (simp add: generate_freeshow_file_def parse_two_sections_doc)
qed

section \<open>The enhanced file\<close>

text \<open>Stripping, reading in text mode, and splitting what was joined.\<close>

lemma set_strip: "set (strip s) \<subseteq> set s"
proof -
  have "set (dropWhile isspace (rev (dropWhile isspace s))) \<subseteq> set (rev (dropWhile isspace s))"
    by (rule set_dropWhileD[THEN subsetI]) 
  also have "\<dots> \<subseteq> set s" using set_dropWhileD[of _ isspace s] by auto
  finally show ?thesis by (simp add: strip_def)
qed

lemma strip_space_Cons: "isspace c \<Longrightarrow> strip (c # s) = strip s"
  by (simp add: strip_def)

lemma strip_fixed: "\<not> isspace a \<Longrightarrow> \<not> isspace b \<Longrightarrow> strip (a # s @ [b]) = a # s @ [b]"
  by (simp add: strip_def)

lemma rstrip_prefix: "t = rev (dropWhile P (rev t)) @ rev (takeWhile P (rev t))"
proof -
  have "rev (takeWhile P (rev t) @ dropWhile P (rev t)) = t"
    by (simp only: takeWhile_dropWhile_id rev_rev_ident)
  then show ?thesis by (simp only: rev_append)
qed

lemma dropWhile_rstrip:
  assumes "t = [] \<or> \<not> P (hd t)"
  shows "dropWhile P (rev (dropWhile P (rev t))) = rev (dropWhile P (rev t))"
proof (cases "rev (dropWhile P (rev t))")
  case Nil
  show ?thesis by (simp only: Nil dropWhile.simps)
next
  case (Cons a as)
  from rstrip_prefix[of t P] have "t = (a # as) @ rev (takeWhile P (rev t))"
    by (simp only: Cons)
  then have "t = a # (as @ rev (takeWhile P (rev t)))" by simp
  then have "hd t = a" "t \<noteq> []" by (metis list.sel(1), metis list.distinct(1))
  with assms have "\<not> P a" by simp
  then show ?thesis by (simp only: Cons dropWhile.simps if_False)
qed

lemma strip_strip: "strip (strip s) = strip s"
proof -
  have "dropWhile isspace s = [] \<or> \<not> isspace (hd (dropWhile isspace s))"
    by (metis hd_dropWhile)
  from dropWhile_rstrip[of "dropWhile isspace s" isspace, OF this]
  have d: "dropWhile isspace (strip s) = strip s" by (simp only: strip_def)
  have "strip (strip s) = rev (dropWhile isspace (rev (strip s)))"
    by (simp only: strip_def[of "strip s"] d)
  also have "\<dots> = strip s" by (simp add: strip_def)
  finally show ?thesis .
qed

lemma read_text_no_cr: "13 \<notin> set (read_text s)"
  by (induction s rule: read_text.induct) auto

lemma read_text_id: "13 \<notin> set s \<Longrightarrow> read_text s = s"
  by (induction s rule: read_text.induct) auto

lemma split_lines_acc_append:
  "10 \<notin> set l \<Longrightarrow> split_lines_acc cur (l @ r) = split_lines_acc (cur @ l) r"
  by (induction l arbitrary: cur) auto

lemma split_lines_acc_join:
  "ls \<noteq> [] \<Longrightarrow> \<forall>l\<in>set ls. 10 \<notin> set l \<Longrightarrow>
     split_lines_acc cur (join [10] ls) = (cur @ hd ls) # tl ls"
proof (induction "[10::nat]" ls arbitrary: cur rule: join.induct)
  case 1
  then show ?case by simp
next
  case (2 x)
  then show ?case using split_lines_acc_append[of x cur "[]"] by simp
next
  case (3 x y ys)
  from 3(3) have x: "10 \<notin> set x" by simp
  from 3(1)[of "[]"] 3(3) have "split_lines_acc [] (join [10] (y # ys)) = y # ys" by simp
  then show ?case using split_lines_acc_append[OF x, of cur "10 # join [10] (y # ys)"] by simp
qed

lemma split_lines_join:
  "ls \<noteq> [] \<Longrightarrow> \<forall>l\<in>set ls. 10 \<notin> set l \<Longrightarrow> split_lines (join [10] ls) = ls"
  by (simp add: split_lines_def split_lines_acc_join)

lemma split_lines_acc_set:
  "l \<in> set (split_lines_acc cur s) \<Longrightarrow> set l \<subseteq> set cur \<union> (set s - {10})"
proof (induction s arbitrary: cur)
  case Nil
  then show ?case by simp
next
  case (Cons a s)
  show ?case
  proof (cases "a = 10")
    case True
    with Cons.prems have "l = cur \<or> l \<in> set (split_lines_acc [] s)" by simp
    then show ?thesis
    proof
      assume "l = cur" then show ?thesis by simp
    next
      assume "l \<in> set (split_lines_acc [] s)"
      from Cons.IH[OF this] show ?thesis by auto
    qed
  next
    case False
    with Cons.prems have "l \<in> set (split_lines_acc (cur @ [a]) s)" by simp
    from Cons.IH[OF this] False show ?thesis by auto
  qed
qed

lemma split_lines_set: "l \<in> set (split_lines s) \<Longrightarrow> set l \<subseteq> set s - {10}"
  using split_lines_acc_set[of l "[]" s] by (simp add: split_lines_def)

text \<open>
  The punctuation handler keeps the characters of its text and adds NBSP only; the year
  is made of characters of the copyright.
\<close>

lemma dps_set: "set (double_punct_sub s) \<subseteq> insert NBSP (set s)"
proof (induction s rule: double_punct_sub.induct)
  case 1 then show ?case by simp
next
  case (2 c cs)
  show ?case
  proof (cases "dropWhile isspace (c # cs)")
    case Nil
    have e: "double_punct_sub (c # cs) = c # double_punct_sub cs"
      by (simp only: double_punct_sub.simps(2) Nil list.case)
    from 2(1)[OF Nil] show ?thesis unfolding e by auto
  next
    case (Cons p rest)
    have "set (p # rest) \<subseteq> set (c # cs)"
      using set_dropWhileD[of _ isspace "c # cs"] unfolding Cons by blast
    then have sub: "p \<in> set (c # cs)" "set rest \<subseteq> set (c # cs)" by auto
    show ?thesis
    proof (cases "is_double_punct p")
      case True
      have e: "double_punct_sub (c # cs) = NBSP # p # double_punct_sub rest"
        by (simp only: double_punct_sub.simps(2) Cons list.case True if_True)
      from 2(2)[OF Cons True] sub show ?thesis unfolding e by auto
    next
      case False
      have e: "double_punct_sub (c # cs) = c # double_punct_sub cs"
        by (simp only: double_punct_sub.simps(2) Cons list.case False if_False)
      from 2(3)[OF Cons False] show ?thesis unfolding e by auto
    qed
  qed
qed

lemma ogs_set: "set (opening_guillemets_sub s) \<subseteq> insert NBSP (set s)"
proof (induction s rule: opening_guillemets_sub.induct)
  case 1 then show ?case by simp
next
  case (2 c cs)
  show ?case
  proof (cases "c = LAQUO")
    case True
    have "set (dropWhile isspace cs) \<subseteq> set cs" using set_dropWhileD[of _ isspace cs] by blast
    with 2(1)[OF True] True show ?thesis by (auto simp add: ogs_laquo)
  next
    case False
    with 2(2)[OF False] show ?thesis by (auto simp add: ogs_other)
  qed
qed

lemma fix_french_punctuation_set: "set (fix_french_punctuation t) \<subseteq> insert NBSP (set t)"
  using dps_set[of t] ogs_set[of "double_punct_sub t"] by (auto simp add: fix_french_punctuation_def)

lemma punctuated_set: "set (punctuated cfg t) \<subseteq> insert NBSP (set t)"
  using fix_french_punctuation_set[of t] by (auto simp add: punctuated_def)

lemma extract_year_set: "extract_year_from_copyright rt s = Some y \<Longrightarrow> set y \<subseteq> set s"
proof (induction s)
  case Nil then show ?case by simp
next
  case (Cons c cs)
  from Cons.prems
  have "y = take 4 (c # cs) \<or> extract_year_from_copyright rt cs = Some y"
    by (auto split: if_splits)
  then show ?case
  proof
    assume "y = take 4 (c # cs)"
    then show ?thesis using set_take_subset[of 4 "c # cs"] by simp
  next
    assume "extract_year_from_copyright rt cs = Some y"
    from Cons.IH[OF this] show ?thesis by auto
  qed
qed

lemma last_index_snoc: "last_index c (xs @ [c]) = Some (length xs)"
  by (simp add: last_index_def)

lemma last_index_take:
  "last_index c xs = Some k \<Longrightarrow> k < length xs"
  unfolding last_index_def
proof -
  assume a: "(case dropWhile (\<lambda>x. x \<noteq> c) (rev xs) of [] \<Rightarrow> None | _ # front \<Rightarrow> Some (length front)) = Some k"
  show ?thesis
  proof (cases "dropWhile (\<lambda>x. x \<noteq> c) (rev xs)")
    case Nil
    with a show ?thesis by (simp only: list.case) simp
  next
    case (Cons a' front)
    with a have k: "k = length front" by (simp only: list.case) simp
    have "length (a' # front) \<le> length (rev xs)"
      using length_dropWhile_le[of "\<lambda>x. x \<noteq> c" "rev xs"] unfolding Cons .
    with k show ?thesis by simp
  qed
qed

lemma directive_match_line:
  assumes k: "k \<noteq> []" "58 \<notin> set k" and v: "10 \<notin> set v"
  shows "directive_match (directive_line k v) = Some (k, Some (32 # v))"
proof -
  have tw: "takeWhile (\<lambda>x. x \<noteq> 58) (k @ 58 # 32 # v @ [125]) = k"
    using k(2) by (auto simp add: takeWhile_tail takeWhile_eq_all_conv)
  have dw: "dropWhile (\<lambda>x. x \<noteq> 58) (k @ 58 # 32 # v @ [125]) = 58 # 32 # v @ [125]"
    using k(2) by (auto simp add: dropWhile_append3 dropWhile_eq_Nil_conv)
  have tw2: "takeWhile (\<lambda>x. x \<noteq> 10) (v @ [125]) = v @ [125]"
    using v takeWhile_eq_all_conv[of "\<lambda>x. x \<noteq> 10" "v @ [125]"] by auto
  have li: "last_index 125 (32 # v @ [125]) = Some (Suc (length v))"
    using last_index_snoc[of 125 "32 # v"] by simp
  show ?thesis
    using k(1) by (simp add: directive_match_def directive_line_def tw dw tw2 li Let_def)
qed

text \<open>
  Every value of the directive map is stripped and made of characters of the text; a
  header line of the enhancer is read back as its key and its stripped value.
\<close>

lemma directive_match_value_set:
  assumes "directive_match s = Some (g1, Some v)"
  shows "set v \<subseteq> set s"
proof (cases s)
  case Nil
  with assms show ?thesis by (simp add: directive_match_def)
next
  case (Cons c t)
  show ?thesis
  proof (cases "dropWhile (\<lambda>x. x \<noteq> 58) t")
    case Nil
    with assms Cons show ?thesis
      by (simp add: directive_match_def Let_def Nil split: if_splits option.splits)
  next
    case d: (Cons a w)
    have "set (a # w) \<subseteq> set t" using set_dropWhileD[of _ "\<lambda>x. x \<noteq> 58" t] unfolding d by blast
    then have w: "set w \<subseteq> set s" using Cons by auto
    from assms Cons have "\<exists>k. v = take k w"
      by (auto simp add: directive_match_def Let_def d split: if_splits option.splits)
    then obtain k where "v = take k w" by blast
    with w set_take_subset[of k w] show ?thesis by auto
  qed
qed

lemma parse_line_metadata:
  "ps_metadata (parse_line rt cfg st line) = ps_metadata st \<or>
   (\<exists>g1 g2. directive_match (strip line) = Some (g1, g2) \<and>
      ps_metadata (parse_line rt cfg st line) =
        (ps_metadata st)(strip g1 \<mapsto> (case g2 of None \<Rightarrow> [] | Some v \<Rightarrow> if v = [] then [] else strip v)))"
  by (auto simp add: parse_line_def Let_def split: option.splits)


lemma parse_line_clean:
  assumes "clean_values A (ps_metadata st)" "set line \<subseteq> A"
  shows "clean_values A (ps_metadata (parse_line rt cfg st line))"
proof -
  from parse_line_metadata[of rt cfg st line]
  show ?thesis
  proof
    assume "ps_metadata (parse_line rt cfg st line) = ps_metadata st"
    with assms(1) show ?thesis by simp
  next
    assume "\<exists>g1 g2. directive_match (strip line) = Some (g1, g2) \<and>
      ps_metadata (parse_line rt cfg st line) =
        (ps_metadata st)(strip g1 \<mapsto> (case g2 of None \<Rightarrow> [] | Some v \<Rightarrow> if v = [] then [] else strip v))"
    then obtain g1 g2 where dm: "directive_match (strip line) = Some (g1, g2)"
      and e: "ps_metadata (parse_line rt cfg st line) =
        (ps_metadata st)(strip g1 \<mapsto> (case g2 of None \<Rightarrow> [] | Some v \<Rightarrow> if v = [] then [] else strip v))"
      by blast
    let ?val = "case g2 of None \<Rightarrow> [] | Some v \<Rightarrow> if v = [] then [] else strip v"
    have val: "set ?val \<subseteq> A \<and> strip ?val = ?val"
    proof (cases g2)
      case None
      then show ?thesis by (simp add: strip_def)
    next
      case (Some v)
      from directive_match_value_set[OF dm[unfolded Some]] set_strip[of line] assms(2)
      have "set v \<subseteq> A" by blast
      with set_strip[of v] have "set (strip v) \<subseteq> A" by blast
      with Some show ?thesis by (simp add: strip_strip) (simp add: strip_def)
    qed
    show ?thesis
      unfolding e clean_values_def
    proof (intro allI impI)
      fix k v
      assume a: "((ps_metadata st)(strip g1 \<mapsto> ?val)) k = Some v"
      show "set v \<subseteq> A \<and> strip v = v"
      proof (cases "k = strip g1")
        case True
        with a have "v = ?val" by simp
        with val show ?thesis by simp
      next
        case False
        with a have "ps_metadata st k = Some v" by simp
        with assms(1) show ?thesis by (simp add: clean_values_def)
      qed
    qed
  qed
qed

lemma foldl_parse_line_clean:
  "clean_values A (ps_metadata st) \<Longrightarrow> \<forall>l\<in>set ls. set l \<subseteq> A \<Longrightarrow>
     clean_values A (ps_metadata (foldl (parse_line rt cfg) st ls))"
  by (induction ls arbitrary: st) (simp_all add: parse_line_clean)

lemma parse_file_clean:
  assumes "parse_file rt cfg content = (file_metadata, sections)"
  shows "clean_values (set content - {10}) file_metadata"
proof -
  have "clean_values (set content - {10}) (ps_metadata initial_parse_state)"
    by (simp add: clean_values_def initial_parse_state_def)
  from foldl_parse_line_clean[OF this, of "split_lines content" rt cfg] split_lines_set[of _ content]
  have "clean_values (set content - {10}) (ps_metadata (parse_lines rt cfg (split_lines content)))"
    by (simp add: parse_lines_def)
  with assms show ?thesis by (simp add: parse_file_def Let_def)
qed

lemma parse_line_empty: "\<not> ps_in_section st \<Longrightarrow> parse_line rt cfg st [] = st"
  by (simp add: parse_line_def strip_def startswith_def u_def Let_def)

lemma header_key_facts:
  assumes "k \<in> set header_keys"
  shows "k \<noteq> []" "58 \<notin> set k" "strip k = k"
    "\<not> startswith (directive_line k v) (u ''{c:'')"
    "\<not> startswith (directive_line k v) (u ''{start_of_'')"
    "\<not> startswith (directive_line k v) (u ''{end_of_'')"
    "startswith (directive_line k v) [123]"
  using assms
  by (auto simp add: header_keys_def u_def strip_def isspace_def startswith_def directive_line_def)

lemma strip_directive_line: "strip (directive_line k v) = directive_line k v"
  using strip_fixed[of 123 125 "k @ [58, 32] @ v"]
  by (simp add: directive_line_def isspace_def)

lemma parse_line_directive:
  assumes k: "k \<in> set header_keys" and v: "10 \<notin> set v" and st: "\<not> ps_in_section st"
  shows "parse_line rt cfg st (directive_line k v) =
           st\<lparr> ps_metadata := (ps_metadata st)(k \<mapsto> strip v) \<rparr>"
proof -
  from directive_match_line[OF header_key_facts(1,2)[OF k] v]
  have dm: "directive_match (directive_line k v) = Some (k, Some (32 # v))" .
  have sp: "strip (32 # v) = strip v" by (rule strip_space_Cons) (simp add: isspace_def)
  show ?thesis
    using st
    by (simp add: parse_line_def strip_directive_line header_key_facts(3-7)[OF k] dm sp Let_def)
qed

lemma parse_header:
  "\<forall>(k, v)\<in>set kvs. k \<in> set header_keys \<and> 10 \<notin> set v \<Longrightarrow> \<not> ps_in_section st \<Longrightarrow>
     foldl (parse_line rt cfg) st (map (\<lambda>(k, v). directive_line k v) kvs) =
       st\<lparr> ps_metadata := foldl (\<lambda>m (k, v). m(k \<mapsto> strip v)) (ps_metadata st) kvs \<rparr>"
proof (induction kvs arbitrary: st)
  case Nil
  then show ?case by simp
next
  case (Cons kv kvs)
  obtain k v where kv: "kv = (k, v)" by (cases kv)
  from Cons.prems(1) kv have k: "k \<in> set header_keys" and v: "10 \<notin> set v" by auto
  let ?st = "st\<lparr> ps_metadata := (ps_metadata st)(k \<mapsto> strip v) \<rparr>"
  have st': "\<not> ps_in_section ?st" using Cons.prems(2) by simp
  from Cons.prems(1) have rest: "\<forall>(k, v)\<in>set kvs. k \<in> set header_keys \<and> 10 \<notin> set v" by simp
  from Cons.IH[OF rest st'] parse_line_directive[OF k v Cons.prems(2)]
  show ?case by (simp add: kv)
qed

text \<open>The header is read back as the map of its entries.\<close>

lemma enhance_header_entries:
  "enhance_header rt cfg csv fm = map (\<lambda>(k, v). directive_line k v) (header_entries rt cfg csv fm)"
  by (simp add: enhance_header_def header_entries_def split: option.splits)

lemma punctuated_single_line: "single_line t \<Longrightarrow> single_line (punctuated cfg t)"
  using punctuated_set[of cfg t] by (auto simp add: single_line_def NBSP_def)

lemma header_entries_clean:
  assumes csv: "case csv of None \<Rightarrow> True | Some r \<Rightarrow> list_all single_line (header_fields r)"
    and key: "\<forall>k. fm (u ''key'') = Some k \<longrightarrow> single_line k"
  shows "\<forall>(k, v)\<in>set (header_entries rt cfg csv fm). k \<in> set header_keys \<and> single_line v"
proof -
  have yr: "\<And>r y. single_line (sm_copyright r) \<Longrightarrow>
              extract_year_from_copyright rt (sm_copyright r) = Some y \<Longrightarrow> single_line y"
    using extract_year_set by (fastforce simp add: single_line_def)
  show ?thesis
    using csv key
    by (auto simp add: header_entries_def header_keys_def header_fields_def punctuated_single_line yr
          split: option.splits if_splits)
qed

lemma join_no_cr: "\<forall>l\<in>set ls. 13 \<notin> set l \<Longrightarrow> 13 \<notin> set (join [10] ls)"
  by (induction "[10::nat]" ls rule: join.induct) auto

lemma directive_line_single:
  "k \<in> set header_keys \<Longrightarrow> single_line v \<Longrightarrow> single_line (directive_line k v)"
  by (auto simp add: header_keys_def single_line_def directive_line_def u_def)

lemma enhance_no_sections:
  "parse_file rt cfg content = (fm, []) \<Longrightarrow>
     enhance_chordpro rt cfg metadata filename content =
       join [10] (enhance_header rt cfg (metadata (lower rt filename)) fm @ [[]])"
  by (simp add: enhance_chordpro_def Let_def)

lemma parse_header_file:
  assumes clean: "\<forall>(k, v)\<in>set kvs. k \<in> set header_keys \<and> single_line v"
  shows "parse_file rt cfg (read_text (join [10] (map (\<lambda>(k, v). directive_line k v) kvs @ [[]]))) =
           (foldl (\<lambda>m (k, v). m(k \<mapsto> strip v)) Map.empty kvs, [])"
proof -
  let ?hdr = "map (\<lambda>(k, v). directive_line k v) kvs"
  have sl: "\<forall>l\<in>set (?hdr @ [[]]). single_line l"
    using clean directive_line_single by (auto simp add: single_line_def)
  then have "13 \<notin> set (join [10] (?hdr @ [[]]))"
    by (intro join_no_cr) (simp add: single_line_def)
  then have rd: "read_text (join [10] (?hdr @ [[]])) = join [10] (?hdr @ [[]])"
    by (rule read_text_id)
  from sl have "\<forall>l\<in>set (?hdr @ [[]]). 10 \<notin> set l" by (simp add: single_line_def)
  then have sp: "split_lines (join [10] (?hdr @ [[]])) = ?hdr @ [[]]"
    by (intro split_lines_join) simp_all
  from clean have c10: "\<forall>(k, v)\<in>set kvs. k \<in> set header_keys \<and> 10 \<notin> set v"
    by (auto simp add: single_line_def)
  have ns: "\<not> ps_in_section initial_parse_state" by (simp add: initial_parse_state_def)
  from parse_header[OF c10 ns, of rt cfg]
  have ph: "parse_lines rt cfg ?hdr =
      initial_parse_state\<lparr> ps_metadata := foldl (\<lambda>m (k, v). m(k \<mapsto> strip v)) Map.empty kvs \<rparr>"
    by (simp add: parse_lines_def initial_parse_state_def)
  have "parse_lines rt cfg (?hdr @ [[]]) =
      initial_parse_state\<lparr> ps_metadata := foldl (\<lambda>m (k, v). m(k \<mapsto> strip v)) Map.empty kvs \<rparr>"
    unfolding parse_lines_append ph using ns by (simp add: parse_line_empty)
  then show ?thesis
    unfolding rd by (simp add: parse_file_def sp Let_def initial_parse_state_def)
qed

lemma punctuated_Nil: "punctuated cfg [] = []"
  by (simp add: punctuated_def fix_french_punctuation_def)

lemma strip_Nil: "strip [] = []"
  by (simp add: strip_def)

lemma header_map_record:
  fixes r fm rt cfg
  defines "M \<equiv> foldl (\<lambda>m (k, v). m(k \<mapsto> strip v)) Map.empty (header_entries rt cfg (Some r) fm)"
  shows "M (u ''number'') = Some (strip (sm_number r))"
    and "M (u ''title'') = Some (strip (punctuated cfg (sm_title r)))"
    and "metadata_get M (u ''lyricist'') [] = strip (punctuated cfg (sm_author r))"
    and "metadata_get M (u ''composer'') [] = strip (punctuated cfg (sm_composer r))"
    and "metadata_get M (u ''copyright'') [] = strip (punctuated cfg (sm_copyright r))"
    and "metadata_get M (u ''year'') [] =
           (case extract_year_from_copyright rt (sm_copyright r) of None \<Rightarrow> [] | Some y \<Rightarrow> strip y)"
    and "metadata_get M (u ''key'') [] = strip (metadata_get fm (u ''key'') [])"
  unfolding M_def
  by (simp_all add: header_entries_def metadata_get_def u_eq_iff punctuated_Nil strip_Nil
        split: option.splits)

lemma header_map_no_record:
  fixes fm rt cfg
  defines "M \<equiv> foldl (\<lambda>m (k, v). m(k \<mapsto> strip v)) Map.empty (header_entries rt cfg None fm)"
  shows "M (u ''number'') = None" "M (u ''title'') = None" "M (u ''lyricist'') = None"
    "M (u ''composer'') = None" "M (u ''copyright'') = None" "M (u ''year'') = None"
    "metadata_get M (u ''key'') [] = strip (metadata_get fm (u ''key'') [])"
  unfolding M_def
  by (simp_all add: header_entries_def metadata_get_def u_eq_iff strip_Nil split: option.splits)

section \<open>A document without sections\<close>

lemma generate_freeshow_file_no_sections:
  assumes "parse_file rt cfg content = (file_metadata, [])"
  shows "\<exists>d. generate_freeshow_file rt cfg current_time filename content = Inr d \<and>
             show_slides d = Map.empty \<and>
             layout_slides d = [] \<and>
             meta_title d = punctuated cfg (metadata_get file_metadata (u ''title'') filename) \<and>
             meta_author d = punctuated cfg (metadata_get file_metadata (u ''lyricist'') []) \<and>
             meta_composer d = punctuated cfg (metadata_get file_metadata (u ''composer'') []) \<and>
             meta_copyright d = punctuated cfg (metadata_get file_metadata (u ''copyright'') []) \<and>
             meta_year d = metadata_get file_metadata (u ''year'') [] \<and>
             meta_key d = metadata_get file_metadata (u ''key'') [] \<and>
             meta_number d = metadata_get file_metadata (u ''number'') []"
  using assms
  by (simp add: generate_freeshow_file_def build_freeshow_data_def unique_and_index_def
        deduplicate_sections_def Let_def)

text \<open>
  The two steps on a document without sections, for a table whose record for the file
  (if there is one) has no line break in the fields that the header shows. (The records
  that \<^verbatim>\<open>load_from_csv\<close> makes have none: it feeds the reader the \<^verbatim>\<open>splitlines()\<close> of the
  text.)
\<close>

lemma process_single_file_no_sections:
  assumes doc: "parse_file rt cfg (read_text raw) = (file_metadata, [])"
    and table: "case metadata (lower rt filename) of
                  None \<Rightarrow> True
                | Some r \<Rightarrow> list_all single_line (header_fields r)"
  shows "\<exists>d. process_single_file rt cfg metadata current_time filename raw = Inr d \<and>
             show_slides d = Map.empty \<and>
             layout_slides d = [] \<and>
             meta_key d = metadata_get file_metadata (u ''key'') [] \<and>
             (case metadata (lower rt filename) of
                None \<Rightarrow>
                  meta_number d = [] \<and>
                  meta_title d = punctuated cfg (filename @ u ''-enhanced'') \<and>
                  meta_author d = [] \<and> meta_composer d = [] \<and> meta_copyright d = [] \<and>
                  meta_year d = []
              | Some r \<Rightarrow>
                  meta_number d = strip (sm_number r) \<and>
                  meta_title d = punctuated cfg (strip (punctuated cfg (sm_title r))) \<and>
                  meta_author d = punctuated cfg (strip (punctuated cfg (sm_author r))) \<and>
                  meta_composer d = punctuated cfg (strip (punctuated cfg (sm_composer r))) \<and>
                  meta_copyright d = punctuated cfg (strip (punctuated cfg (sm_copyright r))) \<and>
                  meta_year d =
                    (case extract_year_from_copyright rt (sm_copyright r) of
                       None \<Rightarrow> []
                     | Some y \<Rightarrow> strip y))"
proof -
  let ?csv = "metadata (lower rt filename)"
  let ?kvs = "header_entries rt cfg ?csv file_metadata"
  let ?M = "foldl (\<lambda>m (k, v). m(k \<mapsto> strip v)) Map.empty ?kvs"
  let ?name = "filename @ u ''-enhanced''"
  from parse_file_clean[OF doc]
  have cl: "clean_values (set (read_text raw) - {10}) file_metadata" .
  have key: "\<forall>k. file_metadata (u ''key'') = Some k \<longrightarrow> single_line k"
    using cl read_text_no_cr[of raw] by (auto simp add: clean_values_def single_line_def)
  have key_strip: "strip (metadata_get file_metadata (u ''key'') []) =
                     metadata_get file_metadata (u ''key'') []"
    using cl by (auto simp add: clean_values_def metadata_get_def strip_Nil split: option.splits)
  from header_entries_clean[of "metadata (lower rt filename)" file_metadata rt cfg, OF table key]
  have "\<forall>(k, v)\<in>set ?kvs. k \<in> set header_keys \<and> single_line v" .
  from parse_header_file[OF this]
  have "parse_file rt cfg (read_text (join [10] (map (\<lambda>(k, v). directive_line k v) ?kvs @ [[]]))) =
          (?M, [])" .
  then have pf: "parse_file rt cfg
      (read_text (enhance_chordpro rt cfg metadata filename (read_text raw))) = (?M, [])"
    by (simp only: enhance_no_sections[OF doc] enhance_header_entries)
  from generate_freeshow_file_no_sections[OF pf, of current_time ?name]
  obtain d where d: "generate_freeshow_file rt cfg current_time ?name
        (read_text (enhance_chordpro rt cfg metadata filename (read_text raw))) = Inr d"
    "show_slides d = Map.empty" "layout_slides d = []"
    "meta_title d = punctuated cfg (metadata_get ?M (u ''title'') ?name)"
    "meta_author d = punctuated cfg (metadata_get ?M (u ''lyricist'') [])"
    "meta_composer d = punctuated cfg (metadata_get ?M (u ''composer'') [])"
    "meta_copyright d = punctuated cfg (metadata_get ?M (u ''copyright'') [])"
    "meta_year d = metadata_get ?M (u ''year'') []"
    "meta_key d = metadata_get ?M (u ''key'') []"
    "meta_number d = metadata_get ?M (u ''number'') []"
    by blast
  have run: "process_single_file rt cfg metadata current_time filename raw = Inr d"
    using d(1) by (simp add: process_single_file_def Let_def)
  show ?thesis
  proof (cases ?csv)
    case None
    note hm = header_map_no_record[of rt cfg file_metadata]
    have "meta_key d = metadata_get file_metadata (u ''key'') []"
      using d(9) hm(7) key_strip by (simp add: None)
    moreover have "meta_number d = []" "meta_title d = punctuated cfg ?name"
      "meta_author d = []" "meta_composer d = []" "meta_copyright d = []" "meta_year d = []"
      using d(4-8,10) hm(1-6) by (simp_all add: None metadata_get_def punctuated_Nil)
    ultimately show ?thesis using run d(2,3) by (simp add: None)
  next
    case (Some r)
    note hm = header_map_record[of rt cfg r file_metadata]
    have "meta_key d = metadata_get file_metadata (u ''key'') []"
      using d(9) hm(7) key_strip by (simp add: Some)
    moreover have "meta_number d = strip (sm_number r)"
      "meta_title d = punctuated cfg (strip (punctuated cfg (sm_title r)))"
      using d(4,10) hm(1,2) by (simp_all add: Some metadata_get_def)
    moreover have "meta_author d = punctuated cfg (strip (punctuated cfg (sm_author r)))"
      "meta_composer d = punctuated cfg (strip (punctuated cfg (sm_composer r)))"
      "meta_copyright d = punctuated cfg (strip (punctuated cfg (sm_copyright r)))"
      "meta_year d =
         (case extract_year_from_copyright rt (sm_copyright r) of None \<Rightarrow> [] | Some y \<Rightarrow> strip y)"
      using d(5-8) hm(3-6) by (simp_all add: Some)
    ultimately show ?thesis using run d(2,3) by (simp add: Some)
  qed
qed

text \<open>
  C8. For a document in which \<^verbatim>\<open>parse_file\<close> finds no section,
  \<^verbatim>\<open>generate_freeshow_file\<close> returns a show with an empty slides mapping and an empty
  layout, whose metadata (title, author, composer, copyright, year, key, number) are
  those of the directive map of the file it reads. And so do the two steps that
  \<^verbatim>\<open>process_single_file\<close> runs on the document: the show has no slide and an empty
  layout, its key is the key of the directive map of the document, and its number,
  title, author, composer, copyright and year are those of the record of the metadata
  table (stripped, the free texts with their punctuation fixed, the year the first four
  digits of the copyright), which the header of the enhanced file carries; without a
  record they are empty and the title is the stem of the enhanced file.
\<close>

theorem no_sections_deck:
  assumes doc: "parse_file rt cfg (read_text raw) = (file_metadata, [])"
    and table: "case metadata (lower rt filename) of
                  None \<Rightarrow> True
                | Some r \<Rightarrow> list_all single_line (header_fields r)"
  shows "(\<exists>d. generate_freeshow_file rt cfg current_time filename (read_text raw) = Inr d \<and>
             show_slides d = Map.empty \<and>
             layout_slides d = [] \<and>
             meta_title d = punctuated cfg (metadata_get file_metadata (u ''title'') filename) \<and>
             meta_author d = punctuated cfg (metadata_get file_metadata (u ''lyricist'') []) \<and>
             meta_composer d = punctuated cfg (metadata_get file_metadata (u ''composer'') []) \<and>
             meta_copyright d = punctuated cfg (metadata_get file_metadata (u ''copyright'') []) \<and>
             meta_year d = metadata_get file_metadata (u ''year'') [] \<and>
             meta_key d = metadata_get file_metadata (u ''key'') [] \<and>
             meta_number d = metadata_get file_metadata (u ''number'') []) \<and>
         (\<exists>d. process_single_file rt cfg metadata current_time filename raw = Inr d \<and>
             show_slides d = Map.empty \<and>
             layout_slides d = [] \<and>
             meta_key d = metadata_get file_metadata (u ''key'') [] \<and>
             (case metadata (lower rt filename) of
                None \<Rightarrow>
                  meta_number d = [] \<and>
                  meta_title d = punctuated cfg (filename @ u ''-enhanced'') \<and>
                  meta_author d = [] \<and> meta_composer d = [] \<and> meta_copyright d = [] \<and>
                  meta_year d = []
              | Some r \<Rightarrow>
                  meta_number d = strip (sm_number r) \<and>
                  meta_title d = punctuated cfg (strip (punctuated cfg (sm_title r))) \<and>
                  meta_author d = punctuated cfg (strip (punctuated cfg (sm_author r))) \<and>
                  meta_composer d = punctuated cfg (strip (punctuated cfg (sm_composer r))) \<and>
                  meta_copyright d = punctuated cfg (strip (punctuated cfg (sm_copyright r))) \<and>
                  meta_year d =
                    (case extract_year_from_copyright rt (sm_copyright r) of
                       None \<Rightarrow> []
                     | Some y \<Rightarrow> strip y)))"
  by (intro conjI generate_freeshow_file_no_sections[OF doc]
        process_single_file_no_sections[where metadata = metadata and filename = filename,
          OF doc table])

theorem no_sections_deck_witness:
  "\<forall>rt current_time.
     parse_file rt default_config (read_text metadata_only_doc) =
       ([u ''title'' \<mapsto> u ''Song'', u ''key'' \<mapsto> u ''C''], []) \<and>
     list_all single_line (header_fields quoi_record) \<and>
     (\<exists>d. generate_freeshow_file rt default_config current_time (u ''JEM001'')
            (read_text metadata_only_doc) = Inr d \<and>
          show_slides d = Map.empty \<and> layout_slides d = [] \<and>
          meta_title d = u ''Song'' \<and> meta_key d = u ''C'' \<and> meta_author d = []) \<and>
     (\<exists>d. process_single_file rt default_config one_song_table current_time (u ''JEM001'')
            metadata_only_doc = Inr d \<and>
          show_slides d = Map.empty \<and> layout_slides d = [] \<and>
          meta_number d = u ''jem001'' \<and> meta_title d = u ''Quoi'' @ [NBSP, 63] \<and>
          meta_author d = [] \<and> meta_composer d = u ''Bach'' \<and>
          meta_copyright d = u ''(c) 1999-2001 X'' \<and> meta_year d = u ''1999'' \<and>
          meta_key d = u ''C'')"
proof (intro allI)
  fix rt :: pyrt and current_time :: int
  let ?fm = "[u ''title'' \<mapsto> u ''Song'', u ''key'' \<mapsto> u ''C'']"
  have rd: "read_text metadata_only_doc = metadata_only_doc"
    by (rule read_text_id) (simp add: metadata_only_doc_def u_def)
  have pf: "parse_file rt default_config (read_text metadata_only_doc) = (?fm, [])"
    unfolding rd by (rule parse_metadata_only_doc)
  have lk: "one_song_table (lower rt (u ''JEM001'')) = Some quoi_record"
    by (simp add: one_song_table_def lower_def is_ascii_def u_def to_lower_char_def
          ascii_upper_char_def)
  have sl: "list_all single_line (header_fields quoi_record)"
    by (simp add: header_fields_def quoi_record_def single_line_def u_def)
  have tb: "case one_song_table (lower rt (u ''JEM001'')) of
              None \<Rightarrow> True
            | Some r \<Rightarrow> list_all single_line (header_fields r)"
    by (simp add: lk sl)
  have pun: "punctuated default_config (strip (punctuated default_config (u ''Quoi ?''))) =
               u ''Quoi'' @ [NBSP, 63]"
    "punctuated default_config (strip (punctuated default_config (u ''Bach''))) = u ''Bach''"
    "punctuated default_config (strip (punctuated default_config (u ''(c) 1999-2001 X''))) =
       u ''(c) 1999-2001 X''"
    "punctuated default_config (strip (punctuated default_config [])) = []"
    by (simp_all add: punctuated_def default_flags fix_french_punctuation_def u_def strip_def
          double_punct_sub.simps(2) opening_guillemets_sub.simps(2) isspace_def
          is_double_punct_def RAQUO_def LAQUO_def NBSP_def)
  have yr: "extract_year_from_copyright rt (u ''(c) 1999-2001 X'') = Some (u ''1999'')"
    by (simp add: u_def isdecimal_def)
  have st: "strip (u ''jem001'') = u ''jem001''" "strip (u ''1999'') = u ''1999''"
    by (simp_all add: u_def strip_def isspace_def)
  note th = no_sections_deck[where metadata = one_song_table and filename = "u ''JEM001''"
      and current_time = current_time, OF pf tb]
  from th obtain d1 where d1:
    "generate_freeshow_file rt default_config current_time (u ''JEM001'')
       (read_text metadata_only_doc) = Inr d1"
    "show_slides d1 = Map.empty" "layout_slides d1 = []"
    "meta_title d1 = punctuated default_config (metadata_get ?fm (u ''title'') (u ''JEM001''))"
    "meta_key d1 = metadata_get ?fm (u ''key'') []"
    "meta_author d1 = punctuated default_config (metadata_get ?fm (u ''lyricist'') [])"
    by blast
  from th obtain d2 where d2:
    "process_single_file rt default_config one_song_table current_time (u ''JEM001'')
       metadata_only_doc = Inr d2"
    "show_slides d2 = Map.empty" "layout_slides d2 = []"
    "meta_key d2 = metadata_get ?fm (u ''key'') []"
    "case one_song_table (lower rt (u ''JEM001'')) of
       None \<Rightarrow>
         meta_number d2 = [] \<and>
         meta_title d2 = punctuated default_config (u ''JEM001'' @ u ''-enhanced'') \<and>
         meta_author d2 = [] \<and> meta_composer d2 = [] \<and> meta_copyright d2 = [] \<and>
         meta_year d2 = []
     | Some r \<Rightarrow>
         meta_number d2 = strip (sm_number r) \<and>
         meta_title d2 = punctuated default_config (strip (punctuated default_config (sm_title r))) \<and>
         meta_author d2 = punctuated default_config (strip (punctuated default_config (sm_author r))) \<and>
         meta_composer d2 = punctuated default_config (strip (punctuated default_config (sm_composer r))) \<and>
         meta_copyright d2 = punctuated default_config (strip (punctuated default_config (sm_copyright r))) \<and>
         meta_year d2 =
           (case extract_year_from_copyright rt (sm_copyright r) of
              None \<Rightarrow> []
            | Some y \<Rightarrow> strip y)"
    by blast
  have g1: "meta_title d1 = u ''Song'' \<and> meta_key d1 = u ''C'' \<and> meta_author d1 = []"
    using d1(4-6)
    by (simp add: punctuated_def metadata_get_def default_flags fix_song u_eq_iff
          fix_french_punctuation_Nil)
  have g2: "meta_number d2 = u ''jem001'' \<and> meta_title d2 = u ''Quoi'' @ [NBSP, 63] \<and>
          meta_author d2 = [] \<and> meta_composer d2 = u ''Bach'' \<and>
          meta_copyright d2 = u ''(c) 1999-2001 X'' \<and> meta_year d2 = u ''1999'' \<and>
          meta_key d2 = u ''C''"
    using d2(4,5) by (simp add: lk quoi_record_def pun yr st metadata_get_def u_eq_iff)
  show "parse_file rt default_config (read_text metadata_only_doc) = (?fm, []) \<and>
     list_all single_line (header_fields quoi_record) \<and>
     (\<exists>d. generate_freeshow_file rt default_config current_time (u ''JEM001'')
            (read_text metadata_only_doc) = Inr d \<and>
          show_slides d = Map.empty \<and> layout_slides d = [] \<and>
          meta_title d = u ''Song'' \<and> meta_key d = u ''C'' \<and> meta_author d = []) \<and>
     (\<exists>d. process_single_file rt default_config one_song_table current_time (u ''JEM001'')
            metadata_only_doc = Inr d \<and>
          show_slides d = Map.empty \<and> layout_slides d = [] \<and>
          meta_number d = u ''jem001'' \<and> meta_title d = u ''Quoi'' @ [NBSP, 63] \<and>
          meta_author d = [] \<and> meta_composer d = u ''Bach'' \<and>
          meta_copyright d = u ''(c) 1999-2001 X'' \<and> meta_year d = u ''1999'' \<and>
          meta_key d = u ''C'')"
    using pf sl d1(1-3) g1 d2(1-3) g2 by blast
qed

end
